theory Spec2Isabelle
  imports Complex_Main "HOL-Library.AList" "HOL-Library.Sublist"
begin

unbundle bit_operations_syntax

section \<open>Tiles and the geometry-assembly backend\<close>

text \<open>
  \<^verbatim>\<open>TileGeometryKind\<close> is the enum of \<^verbatim>\<open>TileGeometryLoader.ts\<close>; a \<^verbatim>\<open>PhaseList\<close> is an
  array of kinds.
\<close>

datatype TileGeometryKind =
  Background | Ground | Areas | Lines | Roads | Buildings | Labels | Pois | Details

type_synonym PhaseList = "TileGeometryKind list"

text \<open>
  The classes \<^verbatim>\<open>Tile\<close>, \<^verbatim>\<open>DataSource\<close>, \<^verbatim>\<open>MapView\<close> and the \<^verbatim>\<open>TileGeometryCreator\<close> with the
  methods the loaders call are not part of the sources at hand. The loaders read and write a
  tile only through the members below. Every call into an external collaborator is recorded,
  in order, in the field \<open>calls\<close>.
\<close>

datatype call =
  CreateBackground
  | CreateObjects TileGeometryKind
  | CreateTextElements
  | PreparePois
  | CreateAllGeometries
  | DisposeTile
  | RequestUpdate

record 'd tile =
  decodedTile :: "'d option"
  disposed :: bool
  isVisible :: bool
  hasGeometry :: bool
  cacheable :: bool
  calls :: "call list"

text \<open>
  Modelled from the spec: \<^verbatim>\<open>Tile.removeDecodedTile()\<close> is missing from the sources; the
  DecodedTile is "consumed exactly once by a loader, then released", so the method clears the
  tile's reference.
\<close>

definition removeDecodedTile :: "'d tile \<Rightarrow> 'd tile" where
  "removeDecodedTile t = t\<lparr>decodedTile := None\<rparr>"

text \<open>
  Modelled from the spec: \<^verbatim>\<open>createBackground(tile)\<close> is missing from the sources;
  "Background builds a ground/background primitive", after which the tile has geometry.
  The other backend calls are recorded only.
\<close>

definition createBackground :: "'d tile \<Rightarrow> 'd tile" where
  "createBackground t = t\<lparr>hasGeometry := True, calls := calls t @ [CreateBackground]\<rparr>"

definition external :: "call \<Rightarrow> 'd tile \<Rightarrow> 'd tile" where
  "external c t = t\<lparr>calls := calls t @ [c]\<rparr>"

section \<open>PhasedTileGeometryLoader\<close>

record 'd PhasedTileGeometryLoader =
  m_decodedTile :: "'d option"
  m_isFinished :: bool
  m_geometryKindsLoaded :: "TileGeometryKind set"
  m_loadPhaseDefinitions :: "PhaseList list"
  m_currentPhaseIndex :: nat
  m_basicGeometryKinds :: "TileGeometryKind set"

text \<open>
  A loader holds a reference to its tile and mutates it; the functions below therefore take
  and return the pair of the loader and its tile.
\<close>

type_synonym 'd phased = "'d PhasedTileGeometryLoader \<times> 'd tile"

definition newPhasedTileGeometryLoader ::
  "PhaseList list \<Rightarrow> TileGeometryKind set \<Rightarrow> 'd PhasedTileGeometryLoader" where
  "newPhasedTileGeometryLoader loadPhaseDefinitions basicGeometryKinds =
     \<lparr>m_decodedTile = None, m_isFinished = False, m_geometryKindsLoaded = {},
      m_loadPhaseDefinitions = loadPhaseDefinitions, m_currentPhaseIndex = 0,
      m_basicGeometryKinds = basicGeometryKinds\<rparr>"

definition currentPhase :: "'d PhasedTileGeometryLoader \<Rightarrow> nat" where
  "currentPhase l = m_currentPhaseIndex l"

definition numberOfPhases :: "'d PhasedTileGeometryLoader \<Rightarrow> nat" where
  "numberOfPhases l = length (m_loadPhaseDefinitions l)"

definition loadedKinds :: "'d PhasedTileGeometryLoader \<Rightarrow> TileGeometryKind set" where
  "loadedKinds l = m_geometryKindsLoaded l"

text \<open>\<^verbatim>\<open>nextPhase()\<close> returns the new phase index, or \<open>None\<close> for \<^verbatim>\<open>undefined\<close>.\<close>

definition nextPhase ::
  "'d PhasedTileGeometryLoader \<Rightarrow> 'd PhasedTileGeometryLoader \<times> nat option" where
  "nextPhase l =
     (let l1 = (if m_currentPhaseIndex l < length (m_loadPhaseDefinitions l)
                then l\<lparr>m_currentPhaseIndex := m_currentPhaseIndex l + 1\<rparr> else l)
      in (l1, if m_currentPhaseIndex l1 < length (m_loadPhaseDefinitions l1)
              then Some (m_currentPhaseIndex l1) else None))"

definition basicGeometryLoaded :: "'d PhasedTileGeometryLoader \<Rightarrow> bool" where
  "basicGeometryLoaded l =
     (\<forall>phase \<in> m_basicGeometryKinds l. phase \<in> m_geometryKindsLoaded l)"

definition allGeometryLoaded :: "'d PhasedTileGeometryLoader \<Rightarrow> bool" where
  "allGeometryLoaded l = (currentPhase l \<ge> length (m_loadPhaseDefinitions l))"

definition isFinished :: "'d PhasedTileGeometryLoader \<Rightarrow> bool" where
  "isFinished l = m_isFinished l"

text \<open>
  \<^verbatim>\<open>setDecodedTile(decodedTile)\<close> ignores its argument and reads the tile's own reference.
\<close>

definition setDecodedTile :: "'d phased \<Rightarrow> 'd phased" where
  "setDecodedTile s =
     (case s of (l, t) \<Rightarrow>
        (l\<lparr>m_decodedTile := decodedTile t, m_currentPhaseIndex := 0,
           m_geometryKindsLoaded := {}\<rparr>, t))"

definition dispose :: "'d phased \<Rightarrow> 'd phased" where
  "dispose s = (case s of (l, t) \<Rightarrow> (l\<lparr>m_decodedTile := None\<rparr>, t))"

definition finish :: "'d phased \<Rightarrow> 'd phased" where
  "finish s =
     (case s of (l, t) \<Rightarrow>
        (l\<lparr>m_decodedTile := None, m_isFinished := True\<rparr>, removeDecodedTile t))"

text \<open>
  \<^verbatim>\<open>createKind(kind)\<close>: a kind already loaded is skipped. The Background branch is empty in
  the source (its body is commented out). For Areas, Lines and Buildings the technique filter
  chosen is identified by the kind in the recorded \<open>CreateObjects\<close> call; Ground, Roads and
  Details select no filter and make no call besides the background.
\<close>

definition createKind :: "TileGeometryKind \<Rightarrow> 'd phased \<Rightarrow> 'd phased" where
  "createKind kind s =
     (case s of (l, t) \<Rightarrow>
        if kind \<in> m_geometryKindsLoaded l then (l, t)
        else
          let l1 = l\<lparr>m_geometryKindsLoaded := insert kind (m_geometryKindsLoaded l)\<rparr> in
          if kind = Background then (l1, t)
          else if m_decodedTile l1 \<noteq> None then
            let t1 = (if \<not> hasGeometry t then createBackground t else t);
                t2 = (if kind = Areas then t1
                      else if kind = Lines then t1
                      else if kind = Buildings then t1
                      else if kind = Labels then external CreateTextElements t1
                      else if kind = Pois then external PreparePois t1
                      else t1);
                t3 = (if kind = Areas \<or> kind = Lines \<or> kind = Buildings
                      then external (CreateObjects kind) t2 else t2)
            in (l1, t3)
          else (l1, t))"

text \<open>The loop \<^verbatim>\<open>for (const kind of currentPhaseDefinition) this.createKind(kind)\<close>.\<close>

fun createKinds :: "PhaseList \<Rightarrow> 'd phased \<Rightarrow> 'd phased" where
  "createKinds [] s = s"
| "createKinds (kind # kinds) s = createKinds kinds (createKind kind s)"

text \<open>
  \<^verbatim>\<open>update()\<close> returns whether work occurred. The statistics blocks only read the state and
  are left out.
\<close>

definition update :: "'d phased \<Rightarrow> 'd phased \<times> bool" where
  "update s =
     (let s1 = (if m_decodedTile (fst s) = None \<and> decodedTile (snd s) \<noteq> None
                then setDecodedTile s else s)
      in case s1 of (l, t) \<Rightarrow>
        if \<not> cacheable t then
          ((l\<lparr>m_currentPhaseIndex := length (m_loadPhaseDefinitions l)\<rparr>, t), False)
        else
          let phase = currentPhase l in
          if m_decodedTile l = None \<or> phase \<ge> numberOfPhases l then ((l, t), False)
          else
            let currentPhaseDefinition = m_loadPhaseDefinitions l ! phase;
                s2 = createKinds currentPhaseDefinition (l, t);
                n = nextPhase (fst s2)
            in (if snd n = None then (finish (fst n, snd s2), True)
                else ((fst n, snd s2), True)))"

subsection \<open>Basic facts about one update\<close>

lemma createKind_loader:
  "m_decodedTile (fst (createKind k s)) = m_decodedTile (fst s)"
  "m_currentPhaseIndex (fst (createKind k s)) = m_currentPhaseIndex (fst s)"
  "m_loadPhaseDefinitions (fst (createKind k s)) = m_loadPhaseDefinitions (fst s)"
  "m_basicGeometryKinds (fst (createKind k s)) = m_basicGeometryKinds (fst s)"
  "m_isFinished (fst (createKind k s)) = m_isFinished (fst s)"
  "m_geometryKindsLoaded (fst (createKind k s)) = insert k (m_geometryKindsLoaded (fst s))"
  by (auto simp: createKind_def Let_def split: prod.splits)

lemma createKind_tile:
  "decodedTile (snd (createKind k s)) = decodedTile (snd s)"
  "cacheable (snd (createKind k s)) = cacheable (snd s)"
  "disposed (snd (createKind k s)) = disposed (snd s)"
  "isVisible (snd (createKind k s)) = isVisible (snd s)"
  by (auto simp: createKind_def Let_def createBackground_def external_def split: prod.splits)

lemma createKinds_loader:
  "m_decodedTile (fst (createKinds ks s)) = m_decodedTile (fst s)"
  "m_currentPhaseIndex (fst (createKinds ks s)) = m_currentPhaseIndex (fst s)"
  "m_loadPhaseDefinitions (fst (createKinds ks s)) = m_loadPhaseDefinitions (fst s)"
  "m_basicGeometryKinds (fst (createKinds ks s)) = m_basicGeometryKinds (fst s)"
  "m_isFinished (fst (createKinds ks s)) = m_isFinished (fst s)"
  "m_geometryKindsLoaded (fst (createKinds ks s)) = set ks \<union> m_geometryKindsLoaded (fst s)"
  by (induction ks arbitrary: s; simp add: createKind_loader)+

lemma createKinds_tile:
  "decodedTile (snd (createKinds ks s)) = decodedTile (snd s)"
  "cacheable (snd (createKinds ks s)) = cacheable (snd s)"
  "disposed (snd (createKinds ks s)) = disposed (snd s)"
  "isVisible (snd (createKinds ks s)) = isVisible (snd s)"
  by (induction ks arbitrary: s; simp add: createKind_tile)+

text \<open>
  The loop of \<^verbatim>\<open>updateToPhase\<close> ends because every \<^verbatim>\<open>update()\<close> that reports work either
  captures a DecodedTile, or advances the phase cursor, or finishes the loader.
\<close>

definition remaining :: "'d phased \<Rightarrow> nat" where
  "remaining s =
     (if m_decodedTile (fst s) = None
      then (if decodedTile (snd s) = None then 0 else length (m_loadPhaseDefinitions (fst s)) + 2)
      else length (m_loadPhaseDefinitions (fst s)) + 1 - m_currentPhaseIndex (fst s))"

lemma update_False:
  "\<not> cacheable t \<Longrightarrow> snd (update (l, t)) = False"
  "m_decodedTile l = None \<Longrightarrow> decodedTile t = None \<Longrightarrow> update (l, t) = ((if cacheable t then l else l\<lparr>m_currentPhaseIndex := length (m_loadPhaseDefinitions l)\<rparr>, t), False)"
  by (simp_all add: update_def Let_def setDecodedTile_def currentPhase_def numberOfPhases_def)

lemma update_step:
  assumes "cacheable t" "m_decodedTile l = Some d" "m_currentPhaseIndex l < length (m_loadPhaseDefinitions l)"
  shows "update (l, t) =
     (let s2 = createKinds (m_loadPhaseDefinitions l ! m_currentPhaseIndex l) (l, t);
          l3 = (fst s2)\<lparr>m_currentPhaseIndex := m_currentPhaseIndex l + 1\<rparr>
      in if m_currentPhaseIndex l + 1 < length (m_loadPhaseDefinitions l)
         then ((l3, snd s2), True) else (finish (l3, snd s2), True))"
  using assms
  by (simp add: update_def Let_def currentPhase_def numberOfPhases_def nextPhase_def
      createKinds_loader)

lemma update_done:
  assumes "cacheable t" "m_decodedTile l = Some d" "\<not> m_currentPhaseIndex l < length (m_loadPhaseDefinitions l)"
  shows "update (l, t) = ((l, t), False)"
  using assms
  by (simp add: update_def Let_def currentPhase_def numberOfPhases_def)

lemma update_capture:
  assumes "m_decodedTile l = None" "decodedTile t = Some d"
  shows "update (l, t) = update (l\<lparr>m_decodedTile := Some d, m_currentPhaseIndex := 0,
           m_geometryKindsLoaded := {}\<rparr>, t)"
  using assms
  by (simp add: update_def Let_def setDecodedTile_def)

lemma update_remaining_Some:
  assumes "snd (update (l, t))" "m_decodedTile l = Some d"
  shows "remaining (fst (update (l, t))) < remaining (l, t)"
proof -
  from assms have c: "cacheable t" using update_False(1) by blast
  show ?thesis
  proof (cases "m_currentPhaseIndex l < length (m_loadPhaseDefinitions l)")
    case True
    show ?thesis
      using True assms(2)
      by (auto simp add: update_step [OF c assms(2) True] Let_def remaining_def finish_def
            removeDecodedTile_def createKinds_loader createKinds_tile)
  next
    case False
    with assms c show ?thesis by (simp add: update_done)
  qed
qed

lemma update_remaining:
  assumes "snd (update s)"
  shows "remaining (fst (update s)) < remaining s"
proof (cases s)
  case (Pair l t)
  show ?thesis
  proof (cases "m_decodedTile l")
    case (Some d)
    with assms Pair show ?thesis by (simp add: update_remaining_Some)
  next
    case None
    show ?thesis
    proof (cases "decodedTile t")
      case N2: None
      with None assms Pair show ?thesis by (simp add: update_False)
    next
      case (Some d)
      let ?l = "l\<lparr>m_decodedTile := Some d, m_currentPhaseIndex := 0, m_geometryKindsLoaded := {}\<rparr>"
      have e: "update (l, t) = update (?l, t)" by (rule update_capture [OF None Some])
      have "remaining (fst (update (?l, t))) < remaining (?l, t)"
        using assms Pair e by (intro update_remaining_Some [where d = d]) simp_all
      moreover have "remaining (?l, t) < remaining (l, t)"
        using None Some by (simp add: remaining_def)
      ultimately show ?thesis using Pair e by simp
    qed
  qed
qed

text \<open>
  \<^verbatim>\<open>updateToPhase(toPhase)\<close>: the \<^verbatim>\<open>while\<close> loop with its local \<^verbatim>\<open>didUpdate\<close>.
\<close>

function updateToPhase_loop :: "nat \<Rightarrow> bool \<Rightarrow> 'd phased \<Rightarrow> 'd phased \<times> bool" where
  "updateToPhase_loop toPhase didUpdate s =
     (if currentPhase (fst s) < toPhase then
        (let r = update s in
         if \<not> snd r then r else updateToPhase_loop toPhase (snd r) (fst r))
      else (s, didUpdate))"
  by pat_completeness auto
termination
  by (relation "measure (\<lambda>(toPhase, didUpdate, s). remaining s)")
     (auto simp: update_remaining)

definition updateToPhase :: "nat \<Rightarrow> 'd phased \<Rightarrow> 'd phased \<times> bool" where
  "updateToPhase toPhase s = updateToPhase_loop toPhase False s"

declare updateToPhase_loop.simps [simp del]

text \<open>
  The operations of a loader, and the one event of its environment that the loader observes:
  the decoder assigning a new DecodedTile to the tile.
\<close>

datatype 'd operation = SetDecodedTile | Update | UpdateToPhase nat | Dispose | TileDecoded 'd

fun operate :: "'d operation \<Rightarrow> 'd phased \<Rightarrow> 'd phased" where
  "operate SetDecodedTile s = setDecodedTile s"
| "operate Update s = fst (update s)"
| "operate (UpdateToPhase toPhase) s = fst (updateToPhase toPhase s)"
| "operate Dispose s = dispose s"
| "operate (TileDecoded d) s = (fst s, (snd s)\<lparr>decodedTile := Some d\<rparr>)"

fun operations :: "'d operation list \<Rightarrow> 'd phased \<Rightarrow> 'd phased" where
  "operations [] s = s"
| "operations (x # xs) s = operations xs (operate x s)"

text \<open>The state of a loader and its tile after \<open>k\<close> calls of \<^verbatim>\<open>update()\<close>.\<close>

fun updates :: "nat \<Rightarrow> 'd phased \<Rightarrow> 'd phased" where
  "updates 0 s = s"
| "updates (Suc k) s = fst (update (updates k s))"

section \<open>PhasedTileGeometryManager\<close>

text \<open>
  Of the \<^verbatim>\<open>MapView\<close> the manager reads \<^verbatim>\<open>isDynamicFrame\<close> and calls \<^verbatim>\<open>update()\<close>, which asks for
  another frame; the calls are counted. Every tile's \<^verbatim>\<open>mapView\<close> is the manager's.
\<close>

record MapView =
  isDynamicFrame :: bool
  updateRequests :: nat

record PhasedTileGeometryManager =
  m_maximumUpdatesPerFrame :: int
  mgr_loadPhaseDefinitions :: "PhaseList list"
  mgr_basicGeometryKinds :: "TileGeometryKind set"
  m_mapView :: MapView

definition DefaultPhases :: "PhaseList list" where
  "DefaultPhases =
     [[Background, Ground, Areas], [Lines, Roads], [Buildings], [Labels, Pois], [Details]]"

definition DefaultBasicGeometryKinds :: "TileGeometryKind set" where
  "DefaultBasicGeometryKinds = {Background, Ground, Areas, Lines}"

definition newPhasedTileGeometryManager :: "MapView \<Rightarrow> PhasedTileGeometryManager" where
  "newPhasedTileGeometryManager mapView =
     \<lparr>m_maximumUpdatesPerFrame = 5, mgr_loadPhaseDefinitions = DefaultPhases,
      mgr_basicGeometryKinds = DefaultBasicGeometryKinds, m_mapView = mapView\<rparr>"

text \<open>
  A tile together with its field \<^verbatim>\<open>tileGeometryLoader\<close>, which is \<^verbatim>\<open>undefined\<close> (\<open>None\<close>) until
  \<^verbatim>\<open>initTile\<close> has run.
\<close>

type_synonym 'd managed = "'d tile \<times> 'd PhasedTileGeometryLoader option"

definition initTile :: "PhasedTileGeometryManager \<Rightarrow> 'd managed \<Rightarrow> 'd managed" where
  "initTile m x =
     (fst x, Some (newPhasedTileGeometryLoader (mgr_loadPhaseDefinitions m)
                     (mgr_basicGeometryKinds m)))"

fun checkTilesFinished :: "'d managed list \<Rightarrow> bool" where
  "checkTilesFinished [] = True"
| "checkTilesFinished ((t, None) # tiles) = checkTilesFinished tiles"
| "checkTilesFinished ((t, Some l) # tiles) =
     (if \<not> allGeometryLoaded l then False else checkTilesFinished tiles)"

text \<open>
  The loop of \<^verbatim>\<open>updateAllTiles\<close>, with its counter \<^verbatim>\<open>numTilesUpdated\<close>; on \<^verbatim>\<open>break\<close> the
  remaining tiles are left as they are.
\<close>

fun updateAllTiles_loop ::
  "PhasedTileGeometryManager \<Rightarrow> int \<Rightarrow> 'd managed list \<Rightarrow> 'd managed list" where
  "updateAllTiles_loop m numTilesUpdated [] = []"
| "updateAllTiles_loop m numTilesUpdated ((t, None) # tiles) =
     (t, None) # updateAllTiles_loop m numTilesUpdated tiles"
| "updateAllTiles_loop m numTilesUpdated ((t, Some l) # tiles) =
     (let r = update (l, t); x = (snd (fst r), Some (fst (fst r))) in
      if snd r then
        (let n = numTilesUpdated + 1 in
         if m_maximumUpdatesPerFrame m > 0 \<and> n \<ge> m_maximumUpdatesPerFrame m
            \<and> isDynamicFrame (m_mapView m)
         then x # tiles
         else x # updateAllTiles_loop m n tiles)
      else x # updateAllTiles_loop m numTilesUpdated tiles)"

definition updateAllTiles ::
  "PhasedTileGeometryManager \<Rightarrow> 'd managed list \<Rightarrow> 'd managed list" where
  "updateAllTiles m tiles = updateAllTiles_loop m 0 tiles"

fun updateTilesIfNeeded_loop ::
  "PhasedTileGeometryManager \<Rightarrow> nat \<Rightarrow> int \<Rightarrow> 'd managed list \<Rightarrow> 'd managed list" where
  "updateTilesIfNeeded_loop m toPhase numTilesUpdated [] = []"
| "updateTilesIfNeeded_loop m toPhase numTilesUpdated ((t, None) # tiles) =
     (t, None) # updateTilesIfNeeded_loop m toPhase numTilesUpdated tiles"
| "updateTilesIfNeeded_loop m toPhase numTilesUpdated ((t, Some l) # tiles) =
     (let r = updateToPhase toPhase (l, t); x = (snd (fst r), Some (fst (fst r))) in
      if snd r then
        (let n = numTilesUpdated + 1 in
         if isDynamicFrame (m_mapView m) \<and> m_maximumUpdatesPerFrame m > 0
            \<and> n \<ge> m_maximumUpdatesPerFrame m
         then x # tiles
         else x # updateTilesIfNeeded_loop m toPhase n tiles)
      else x # updateTilesIfNeeded_loop m toPhase numTilesUpdated tiles)"

definition updateTilesIfNeeded ::
  "PhasedTileGeometryManager \<Rightarrow> 'd managed list \<Rightarrow> nat \<Rightarrow> 'd managed list" where
  "updateTilesIfNeeded m tiles toPhase = updateTilesIfNeeded_loop m toPhase 0 tiles"

text \<open>The first loop of \<^verbatim>\<open>updateTilesTogether\<close>; \<open>None\<close> is \<^verbatim>\<open>undefined\<close>.\<close>

fun lowestPhase_loop :: "nat option \<Rightarrow> 'd managed list \<Rightarrow> nat option" where
  "lowestPhase_loop lowestPhase [] = lowestPhase"
| "lowestPhase_loop lowestPhase ((t, None) # tiles) = lowestPhase_loop lowestPhase tiles"
| "lowestPhase_loop lowestPhase ((t, Some l) # tiles) =
     (if (case lowestPhase of None \<Rightarrow> True | Some lowest \<Rightarrow> currentPhase l < lowest)
      then lowestPhase_loop (Some (currentPhase l)) tiles
      else lowestPhase_loop lowestPhase tiles)"

definition updateTilesTogether ::
  "PhasedTileGeometryManager \<Rightarrow> 'd managed list \<Rightarrow> 'd managed list" where
  "updateTilesTogether m tiles =
     (case lowestPhase_loop None tiles of
        None \<Rightarrow> tiles
      | Some lowestPhase \<Rightarrow>
          if lowestPhase < length (mgr_loadPhaseDefinitions m)
          then (let nextPhase = lowestPhase + 1 in updateTilesIfNeeded m tiles nextPhase)
          else tiles)"

definition updateTiles ::
  "PhasedTileGeometryManager \<Rightarrow> 'd managed list \<Rightarrow>
     PhasedTileGeometryManager \<times> 'd managed list" where
  "updateTiles m tiles =
     (let tiles1 = (if isDynamicFrame (m_mapView m) then updateAllTiles m tiles
                    else updateTilesTogether m tiles)
      in if \<not> checkTilesFinished tiles1
         then (m\<lparr>m_mapView := (m_mapView m)\<lparr>updateRequests :=
                   updateRequests (m_mapView m) + 1\<rparr>\<rparr>, tiles1)
         else (m, tiles1))"

text \<open>
  Frames of the render loop. Before a frame the decoder may have delivered DecodedTiles:
  \<open>deliver\<close> assigns the deliveries of one frame (\<open>None\<close> for a tile that received nothing) to
  the tiles, position by position.
\<close>

fun deliver :: "'d option list \<Rightarrow> 'd managed list \<Rightarrow> 'd managed list" where
  "deliver (Some d # ds) ((t, lo) # tiles) = (t\<lparr>decodedTile := Some d\<rparr>, lo) # deliver ds tiles"
| "deliver (None # ds) (x # tiles) = x # deliver ds tiles"
| "deliver ds tiles = tiles"

fun frames ::
  "'d option list list \<Rightarrow> PhasedTileGeometryManager \<times> 'd managed list \<Rightarrow>
     PhasedTileGeometryManager \<times> 'd managed list" where
  "frames [] s = s"
| "frames (ds # dss) s = frames dss (updateTiles (fst s) (deliver ds (snd s)))"

text \<open>The phase cursors of the tiles that have a loader.\<close>

fun currentPhases :: "'d managed list \<Rightarrow> nat list" where
  "currentPhases [] = []"
| "currentPhases ((t, None) # tiles) = currentPhases tiles"
| "currentPhases ((t, Some l) # tiles) = currentPhase l # currentPhases tiles"

text \<open>
  The distance between the fastest and the slowest phase cursor of the tiles that have a
  loader (0 when no tile has one).
\<close>

definition phaseSpread :: "'d managed list \<Rightarrow> nat" where
  "phaseSpread tiles =
     (if currentPhases tiles = [] then 0
      else Max (set (currentPhases tiles)) - Min (set (currentPhases tiles)))"

text \<open>
  Every tile has a cacheable data source, and no loader's cursor is beyond its last phase
  (which holds for every loader from its construction on).
\<close>

definition cacheableTiles :: "'d managed list \<Rightarrow> bool" where
  "cacheableTiles tiles \<longleftrightarrow>
     (\<forall>x \<in> set tiles. cacheable (fst x) \<and>
        (\<forall>l. snd x = Some l \<longrightarrow> currentPhase l \<le> numberOfPhases l))"

section \<open>SimpleTileGeometryLoader\<close>

record 'd SimpleTileGeometryLoader =
  m_decodedTile_simple :: "'d option"
  m_isFinished_simple :: bool

text \<open>
  \<^verbatim>\<open>prepareForRender\<close> hands a closure to \<^verbatim>\<open>setTimeout(..., 0)\<close>. The closure captures the tile, the
  loader and the DecodedTile read before the loader's reference was cleared. The pending
  closures are kept, in the order they were scheduled, as the list of the DecodedTiles they
  captured; the state is the loader, its tile and this list.
\<close>

type_synonym 'd simple = "'d SimpleTileGeometryLoader \<times> 'd tile \<times> 'd list"

definition newSimpleTileGeometryLoader :: "'d SimpleTileGeometryLoader" where
  "newSimpleTileGeometryLoader = \<lparr>m_decodedTile_simple = None, m_isFinished_simple = False\<rparr>"

definition basicGeometryLoaded_simple :: "'d SimpleTileGeometryLoader \<Rightarrow> bool" where
  "basicGeometryLoaded_simple l = m_isFinished_simple l"

definition allGeometryLoaded_simple :: "'d SimpleTileGeometryLoader \<Rightarrow> bool" where
  "allGeometryLoaded_simple l = m_isFinished_simple l"

definition isFinished_simple :: "'d SimpleTileGeometryLoader \<Rightarrow> bool" where
  "isFinished_simple l = m_isFinished_simple l"

definition setDecodedTile_simple :: "'d simple \<Rightarrow> 'd simple" where
  "setDecodedTile_simple s =
     (case s of (l, t, q) \<Rightarrow> (l\<lparr>m_decodedTile_simple := decodedTile t\<rparr>, t, q))"

definition dispose_simple :: "'d simple \<Rightarrow> 'd simple" where
  "dispose_simple s = (case s of (l, t, q) \<Rightarrow> (l\<lparr>m_decodedTile_simple := None\<rparr>, t, q))"

definition finish_simple :: "'d simple \<Rightarrow> 'd simple" where
  "finish_simple s =
     (case s of (l, t, q) \<Rightarrow> (l\<lparr>m_isFinished_simple := True\<rparr>, removeDecodedTile t, q))"

definition prepareForRender :: "'d simple \<Rightarrow> 'd simple" where
  "prepareForRender s =
     (case s of (l, t, q) \<Rightarrow>
        (case m_decodedTile_simple l of
           None \<Rightarrow> (l\<lparr>m_decodedTile_simple := None\<rparr>, t, q)
         | Some d \<Rightarrow>
             if disposed t \<or> \<not> isVisible t then (l\<lparr>m_decodedTile_simple := None\<rparr>, t, q)
             else (l\<lparr>m_decodedTile_simple := None\<rparr>, t, q @ [d])))"

definition update_simple :: "'d simple \<Rightarrow> 'd simple" where
  "update_simple s =
     (case s of (l, t, q) \<Rightarrow>
        if m_decodedTile_simple l = None \<and> decodedTile t \<noteq> None
        then finish_simple (prepareForRender (setDecodedTile_simple s))
        else s)"

text \<open>
  The body of the closure, run with the DecodedTile \<open>d\<close> it captured. The statistics blocks only
  write to the statistics and are left out.
\<close>

definition deferred :: "'d \<Rightarrow> 'd simple \<Rightarrow> 'd simple" where
  "deferred d s =
     (case s of (l, t, q) \<Rightarrow>
        if \<not> isVisible t then (l, external DisposeTile t, q)
        else
          let t1 = external CreateAllGeometries t;
              s1 = finish_simple (l, t1, q)
          in (fst s1, external RequestUpdate (fst (snd s1)), snd (snd s1)))"

text \<open>The scheduler runs the oldest pending closure.\<close>

definition runTimeout :: "'d simple \<Rightarrow> 'd simple" where
  "runTimeout s =
     (case s of (l, t, q) \<Rightarrow>
        (case q of [] \<Rightarrow> s | d # rest \<Rightarrow> deferred d (l, t, rest)))"

text \<open>
  What can happen to a simple loader and its tile: the loader's methods, the scheduler running
  a closure, and the environment changing the tile.
\<close>

datatype 'd event =
  Update_simple | SetDecodedTile_simple | Dispose_simple | RunTimeout
  | Decoded 'd | SetVisible bool | DisposeTheTile

fun happen :: "'d event \<Rightarrow> 'd simple \<Rightarrow> 'd simple" where
  "happen Update_simple s = update_simple s"
| "happen SetDecodedTile_simple s = setDecodedTile_simple s"
| "happen Dispose_simple s = dispose_simple s"
| "happen RunTimeout s = runTimeout s"
| "happen (Decoded d) (l, t, q) = (l, t\<lparr>decodedTile := Some d\<rparr>, q)"
| "happen (SetVisible v) (l, t, q) = (l, t\<lparr>isVisible := v\<rparr>, q)"
| "happen DisposeTheTile (l, t, q) = (l, t\<lparr>disposed := True\<rparr>, q)"

fun happenings :: "'d event list \<Rightarrow> 'd simple \<Rightarrow> 'd simple" where
  "happenings [] s = s"
| "happenings (e # es) s = happenings es (happen e s)"

section \<open>Interpolated properties\<close>

text \<open>
  \<^verbatim>\<open>InterpolationMode\<close> and the shapes of \<^verbatim>\<open>InterpolatedPropertyDefinition\<close> and
  \<^verbatim>\<open>InterpolatedProperty\<close> are declared in files that are not part of the sources at hand; they
  are taken from their uses in \<^verbatim>\<open>createInterpolatedProperty\<close>.
\<close>

datatype InterpolationMode = Discrete | Linear | Cubic

text \<open>The values a theme can give in the \<^verbatim>\<open>values\<close> array of a definition.\<close>

datatype jsval = JNum real | JBool bool | JStr string

record InterpolatedPropertyDefinition =
  interpolation :: "InterpolationMode option"
  zoomLevels :: "real list"
  values' :: "jsval list"

text \<open>
  An element of a \<^verbatim>\<open>Float32Array\<close>. The rounding of a number to single precision is not
  modelled: an element is a real number or \<^verbatim>\<open>NaN\<close>.
\<close>

datatype f32 = NaN | Num real

record InterpolatedProperty =
  interpolationMode :: InterpolationMode
  ip_zoomLevels :: "f32 list"
  ip_values :: "f32 list"

datatype error = TypeError | OutsideModel

subsection \<open>Array primitives of JavaScript\<close>

text \<open>\<^verbatim>\<open>xs[i]\<close>: \<^verbatim>\<open>undefined\<close> (\<open>None\<close>) outside the array.\<close>

definition elemAt :: "'a list \<Rightarrow> int \<Rightarrow> 'a option" where
  "elemAt xs i = (if 0 \<le> i \<and> i < int (length xs) then Some (xs ! nat i) else None)"

text \<open>\<^verbatim>\<open>xs.findIndex(f)\<close>: the first index whose element satisfies \<open>f\<close>, or \<open>-1\<close>.\<close>

fun findIndex :: "('a \<Rightarrow> bool) \<Rightarrow> 'a list \<Rightarrow> int" where
  "findIndex f [] = -1"
| "findIndex f (x # xs) =
     (if f x then 0 else (let k = findIndex f xs in if k < 0 then -1 else k + 1))"

text \<open>
  \<^verbatim>\<open>xs.splice(start, 1)\<close>: a negative \<open>start\<close> counts from the end of the array, and is
  clamped to the array; one element is removed at that position if there is one.
\<close>

definition splice1 :: "int \<Rightarrow> 'a list \<Rightarrow> 'a list" where
  "splice1 start xs =
     (let len = int (length xs);
          actualStart = (if start < 0 then max (len + start) 0 else min start len)
      in take (nat actualStart) xs @ drop (nat actualStart + 1) xs)"

text \<open>
  A write \<^verbatim>\<open>a[k] = v\<close> to a typed array: ignored outside the array. \<^verbatim>\<open>channels[j]\<close> beyond
  the array is \<^verbatim>\<open>undefined\<close>, which a \<^verbatim>\<open>Float32Array\<close> stores as \<^verbatim>\<open>NaN\<close>.
\<close>

definition store :: "f32 list \<Rightarrow> nat \<Rightarrow> f32 \<Rightarrow> f32 list" where
  "store a k v = (if k < length a then a[k := v] else a)"

definition element :: "f32 list \<Rightarrow> nat \<Rightarrow> f32" where
  "element channels j = (if j < length channels then channels ! j else NaN)"

subsection \<open>removeDuplicatePropertyValues\<close>

text \<open>
  The loop \<^verbatim>\<open>for (let i = 0; i < p.values.length; ++i)\<close>. The body decrements \<open>i\<close> twice
  when it removes, so the index is an integer and the loop is not bounded by its shape:
  a result \<open>None\<close> stands for a loop that does not end. The comparison \<^verbatim>\<open>a === p.zoomLevels[i]\<close>
  is never true for an \<^verbatim>\<open>undefined\<close> right-hand side.
\<close>

partial_function (option) removeDuplicatePropertyValues_loop ::
  "int \<Rightarrow> real list \<Rightarrow> jsval list \<Rightarrow> (real list \<times> jsval list) option" where
  "removeDuplicatePropertyValues_loop i zs vs =
     (if i < int (length vs) then
        (let firstIdx = (case elemAt zs i of None \<Rightarrow> -1 | Some z \<Rightarrow> findIndex (\<lambda>a. a = z) zs)
         in if firstIdx \<noteq> i
            then removeDuplicatePropertyValues_loop (i - 1 - 1 + 1)
                   (splice1 (i - 1) zs) (splice1 (i - 1 - 1) vs)
            else removeDuplicatePropertyValues_loop (i + 1) zs vs)
      else Some (zs, vs))"

declare removeDuplicatePropertyValues_loop.simps [code]

definition removeDuplicatePropertyValues ::
  "InterpolatedPropertyDefinition \<Rightarrow> InterpolatedPropertyDefinition option" where
  "removeDuplicatePropertyValues p =
     map_option (\<lambda>(zs, vs). p\<lparr>zoomLevels := zs, values' := vs\<rparr>)
       (removeDuplicatePropertyValues_loop 0 (zoomLevels p) (values' p))"

subsection \<open>createInterpolatedProperty\<close>

text \<open>
  \<^verbatim>\<open>str.replace("#", "0x")\<close> replaces the first \<^verbatim>\<open>#\<close>.
\<close>

fun replaceHash :: "string \<Rightarrow> string" where
  "replaceHash [] = []"
| "replaceHash (c # cs) = (if c = CHR ''#'' then ''0x'' @ cs else c # replaceHash cs)"

definition hexDigit :: "char \<Rightarrow> nat option" where
  "hexDigit c =
     (let k = of_char c :: nat in
      if 48 \<le> k \<and> k \<le> 57 then Some (k - 48)
      else if 97 \<le> k \<and> k \<le> 102 then Some (k - 87)
      else if 65 \<le> k \<and> k \<le> 70 then Some (k - 55)
      else None)"

fun hexDigits :: "nat \<Rightarrow> string \<Rightarrow> nat option" where
  "hexDigits acc [] = Some acc"
| "hexDigits acc (c # cs) =
     (case hexDigit c of None \<Rightarrow> None | Some k \<Rightarrow> hexDigits (16 * acc + k) cs)"

text \<open>
  The unary \<^verbatim>\<open>+\<close> applied to a string. Only the hexadecimal literals \<^verbatim>\<open>0x...\<close> with at most
  13 digits are modelled (their value is an integer that a double holds exactly); for every
  other string the result is \<open>None\<close> and the conversion is reported as outside the model.
\<close>

definition stringToNumber :: "string \<Rightarrow> int option" where
  "stringToNumber s =
     (case s of
        c0 # c1 # ds \<Rightarrow>
          if c0 = CHR ''0'' \<and> (c1 = CHR ''x'' \<or> c1 = CHR ''X'') \<and> ds \<noteq> [] \<and> length ds \<le> 13
          then map_option int (hexDigits 0 ds) else None
      | _ \<Rightarrow> None)"

text \<open>
  \<^verbatim>\<open>(value >> shift) & 255\<close>: the operand is converted to a signed 32-bit integer, shifted
  arithmetically and masked.
\<close>

definition toInt32 :: "int \<Rightarrow> int" where
  "toInt32 v = signed_take_bit 31 v"

definition channel :: "int \<Rightarrow> nat \<Rightarrow> f32" where
  "channel v shift = Num (real_of_int ((drop_bit shift (toInt32 v)) AND 255) / 255)"

text \<open>
  The inner loop \<^verbatim>\<open>for (let j = 0; j < prop.values.length * 3; ++j)\<close> of the colour case: its
  bound is the length of the whole array, not the number of channels.
\<close>

definition storeChannels :: "nat \<Rightarrow> nat \<Rightarrow> f32 list \<Rightarrow> f32 list \<Rightarrow> f32 list" where
  "storeChannels n i channels propValues =
     fold (\<lambda>j a. store a (i * 3 + j) (element channels j)) [0..<n * 3] propValues"

fun colorLoop :: "jsval list \<Rightarrow> nat list \<Rightarrow> f32 list \<Rightarrow> error + f32 list" where
  "colorLoop vs [] propValues = Inr propValues"
| "colorLoop vs (i # is) propValues =
     (case vs ! i of
        JStr str \<Rightarrow>
          (case stringToNumber (replaceHash str) of
             None \<Rightarrow> Inl OutsideModel
           | Some v \<Rightarrow>
               colorLoop vs is
                 (storeChannels (length vs) i [channel v 16, channel v 8, channel v 0]
                    propValues))
      | _ \<Rightarrow> Inl TypeError)"

text \<open>The truth value of \<^verbatim>\<open>prop.values[i]\<close> in the boolean case.\<close>

fun truthy :: "jsval \<Rightarrow> bool" where
  "truthy (JBool b) = b"
| "truthy (JNum r) = (r \<noteq> 0)"
| "truthy (JStr s) = (s \<noteq> [])"

text \<open>The conversion of an array element by \<^verbatim>\<open>new Float32Array(prop.values)\<close>.\<close>

fun toNumber :: "jsval \<Rightarrow> error + f32" where
  "toNumber (JNum r) = Inr (Num r)"
| "toNumber (JBool b) = Inr (Num (if b then 1 else 0))"
| "toNumber (JStr s) =
     (case stringToNumber s of None \<Rightarrow> Inl OutsideModel | Some v \<Rightarrow> Inr (Num (real_of_int v)))"

fun toNumbers :: "jsval list \<Rightarrow> error + f32 list" where
  "toNumbers [] = Inr []"
| "toNumbers (v # vs) =
     (case toNumber v of
        Inl e \<Rightarrow> Inl e
      | Inr x \<Rightarrow> (case toNumbers vs of Inl e \<Rightarrow> Inl e | Inr xs \<Rightarrow> Inr (x # xs)))"

text \<open>
  The part of \<^verbatim>\<open>createInterpolatedProperty\<close> after the duplicates have been removed. The
  \<^verbatim>\<open>switch (typeof prop.values[0])\<close> takes the number case also for an empty array.
\<close>

definition sample :: "InterpolatedPropertyDefinition \<Rightarrow> error + InterpolatedProperty" where
  "sample prop =
     (let propKeys = map Num (zoomLevels prop) in
      case values' prop of
        JBool b # _ \<Rightarrow>
          Inr \<lparr>interpolationMode = Discrete, ip_zoomLevels = propKeys,
               ip_values = map (\<lambda>v. Num (if truthy v then 1 else 0)) (values' prop)\<rparr>
      | JStr s # _ \<Rightarrow>
          (case colorLoop (values' prop) [0..<length (values' prop)]
                  (replicate (length (values' prop) * 3) (Num 0)) of
             Inl e \<Rightarrow> Inl e
           | Inr propValues \<Rightarrow>
               Inr \<lparr>interpolationMode =
                      (case interpolation prop of None \<Rightarrow> Discrete | Some mode \<Rightarrow> mode),
                    ip_zoomLevels = propKeys, ip_values = propValues\<rparr>)
      | _ \<Rightarrow>
          (case toNumbers (values' prop) of
             Inl e \<Rightarrow> Inl e
           | Inr propValues \<Rightarrow>
               Inr \<lparr>interpolationMode =
                      (case interpolation prop of None \<Rightarrow> Discrete | Some mode \<Rightarrow> mode),
                    ip_zoomLevels = propKeys, ip_values = propValues\<rparr>))"

text \<open>
  \<^verbatim>\<open>createInterpolatedProperty(prop)\<close> removes the duplicates in place: besides the result it
  returns the definition as it has left it.
\<close>

definition createInterpolatedProperty ::
  "InterpolatedPropertyDefinition \<Rightarrow>
     (InterpolatedPropertyDefinition \<times> (error + InterpolatedProperty)) option" where
  "createInterpolatedProperty prop =
     map_option (\<lambda>prop1. (prop1, sample prop1)) (removeDuplicatePropertyValues prop)"

subsection \<open>Colours as the specification reads them\<close>



section \<open>StyleSetEvaluator\<close>

text \<open>
  \<^verbatim>\<open>Style\<close>, \<^verbatim>\<open>Technique\<close>, \<^verbatim>\<open>Expr\<close> and \<^verbatim>\<open>MapEnv\<close> are declared in files that are not part of the
  sources at hand. A style is modelled with the members the evaluator reads and writes. An
  object with string keys (\<^verbatim>\<open>attr\<close>, a technique) is the list of its own properties; an
  assignment replaces the value of a key that is there and appends a new key.
\<close>

datatype attr_value = Plain jsval | InterpDef InterpolatedPropertyDefinition

datatype tvalue =
  TVal jsval | TRange "real \<times> real" | TInterp InterpolatedProperty

type_synonym Technique = "(string \<times> tvalue) list"

text \<open>
  An \<^verbatim>\<open>Expr\<close> is what \<^verbatim>\<open>Expr.parse\<close> makes of a \<^verbatim>\<open>when\<close> string: here the function from an
  environment to the truth value of \<^verbatim>\<open>evaluate(env)\<close>. The parser is a parameter of the model;
  it returns \<open>None\<close> where \<^verbatim>\<open>Expr.parse\<close> throws.
\<close>

type_synonym 'env Expr = "'env \<Rightarrow> bool"

record 'env StyleFields =
  when' :: "string option"
  p_whenExpr :: "'env Expr option"
  renderOrder :: "real option"
  renderOrderBiasGroup :: "string option"
  renderOrderBiasRange :: "(real \<times> real) option"
  renderOrderBiasProperty :: "string option"
  labelProperty :: "string option"
  transient :: "bool option"
  technique :: "string option"
  attr :: "(string \<times> attr_value) list option"
  final :: "bool option"
  p_index :: "nat option"

text \<open>A style: its own members, and its child styles \<^verbatim>\<open>styles\<close> if it has any.\<close>

datatype 'env Style = Style (members: "'env StyleFields") (styles: "'env Style list option")

text \<open>
  A reference to a Technique object is its address in \<open>heap\<close>, the list of all Technique
  objects created so far; \<open>None\<close> is \<^verbatim>\<open>undefined\<close>.
\<close>

record 'env StyleSetEvaluator =
  styleSet :: "'env Style list"
  validate' :: bool
  m_renderOrderBiasGroups :: "(string \<times> real) list"
  m_techniques :: "nat list"
  heap :: "Technique list"

subsection \<open>The constructor\<close>

text \<open>
  \<^verbatim>\<open>computeDefaultRenderOrder\<close>, with the counter \<^verbatim>\<open>techniqueRenderOrder\<close> and the map
  \<^verbatim>\<open>m_renderOrderBiasGroups\<close> passed along. The warnings are left out.
\<close>

definition biasGroupOrder ::
  "real \<Rightarrow> (string \<times> real) list \<Rightarrow> 'env StyleFields \<Rightarrow>
     real \<times> (string \<times> real) list \<times> 'env StyleFields" where
  "biasGroupOrder techniqueRenderOrder groups style =
     (case renderOrderBiasGroup style of
        None \<Rightarrow> (techniqueRenderOrder, groups, style)
      | Some g \<Rightarrow>
          let renderOrderBiasGroupOrder = (if g \<noteq> [] then map_of groups g else None) in
          (case (renderOrderBiasRange style, renderOrderBiasGroupOrder) of
             (Some (minRange, maxRange), None) \<Rightarrow>
               let order = (if minRange < 0 then techniqueRenderOrder + \<bar>minRange\<bar>
                            else techniqueRenderOrder);
                   counter = techniqueRenderOrder + (\<bar>minRange\<bar> + maxRange);
                   groups1 = (if g \<noteq> [] then AList.update g order groups else groups)
               in (counter + 1, groups1, style\<lparr>renderOrder := Some order\<rparr>)
           | (_, Some v) \<Rightarrow>
               if v \<noteq> 0
               then (techniqueRenderOrder, groups, style\<lparr>renderOrder := Some v\<rparr>)
               else (techniqueRenderOrder, groups, style)
           | (None, None) \<Rightarrow> (techniqueRenderOrder, groups, style)))"

definition leafRenderOrder ::
  "real \<Rightarrow> 'env StyleFields \<Rightarrow> real \<times> 'env StyleFields" where
  "leafRenderOrder techniqueRenderOrder style =
     (if technique style \<noteq> None then
        (case attr style of
           None \<Rightarrow> (techniqueRenderOrder, style)
         | Some a \<Rightarrow>
             if map_of a ''renderOrder'' = None
             then (techniqueRenderOrder + 1,
                   style\<lparr>attr := Some (AList.update ''_renderOrderAuto''
                                        (Plain (JNum techniqueRenderOrder)) a)\<rparr>)
             else (techniqueRenderOrder, style))
      else (techniqueRenderOrder, style))"

fun computeDefaultRenderOrder ::
    "real \<times> (string \<times> real) list \<Rightarrow> 'env Style \<Rightarrow>
       (real \<times> (string \<times> real) list) \<times> 'env Style"
  and computeDefaultRenderOrders ::
    "real \<times> (string \<times> real) list \<Rightarrow> 'env Style list \<Rightarrow>
       (real \<times> (string \<times> real) list) \<times> 'env Style list" where
  "computeDefaultRenderOrder st (Style style sub) =
     (case biasGroupOrder (fst st) (snd st) style of (counter, groups, style1) \<Rightarrow>
        (case sub of
           Some children \<Rightarrow>
             (case computeDefaultRenderOrders (counter, groups) children of
                (st1, children1) \<Rightarrow> (st1, Style style1 (Some children1)))
         | None \<Rightarrow>
             (case leafRenderOrder counter style1 of
                (counter1, style2) \<Rightarrow> ((counter1, groups), Style style2 None))))"
| "computeDefaultRenderOrders st [] = (st, [])"
| "computeDefaultRenderOrders st (currStyle # rest) =
     (case computeDefaultRenderOrder st currStyle of
        (st1, currStyle1) \<Rightarrow>
          (case computeDefaultRenderOrders st1 rest of
             (st2, rest1) \<Rightarrow> (st2, currStyle1 # rest1)))"

definition newStyleSetEvaluator :: "'env Style list \<Rightarrow> bool \<Rightarrow> 'env StyleSetEvaluator" where
  "newStyleSetEvaluator styleSet0 validate0 =
     (case computeDefaultRenderOrders (0, []) styleSet0 of
        ((counter, groups), styleSet1) \<Rightarrow>
          \<lparr>styleSet = styleSet1, validate' = validate0, m_renderOrderBiasGroups = groups,
           m_techniques = [], heap = []\<rparr>)"

subsection \<open>getMatchingTechniques\<close>

datatype failure = Thrown error | NoReturn | ExprError | InternalError

text \<open>
  The loop \<^verbatim>\<open>Object.getOwnPropertyNames(currStyle.attr).forEach(...)\<close> of \<^verbatim>\<open>addAttributes\<close>. A
  definition of an interpolated property is converted, which also removes its duplicates in
  place: the loop returns the properties as it has left them, and the technique.
\<close>

fun addProperties ::
  "(string \<times> attr_value) list \<Rightarrow> Technique \<Rightarrow>
     failure + (string \<times> attr_value) list \<times> Technique" where
  "addProperties [] tech = Inr ([], tech)"
| "addProperties ((property, Plain v) # rest) tech =
     (case addProperties rest (AList.update property (TVal v) tech) of
        Inl e \<Rightarrow> Inl e
      | Inr (rest1, technique1) \<Rightarrow> Inr ((property, Plain v) # rest1, technique1))"
| "addProperties ((property, InterpDef prop) # rest) tech =
     (case createInterpolatedProperty prop of
        None \<Rightarrow> Inl NoReturn
      | Some (prop1, Inl e) \<Rightarrow> Inl (Thrown e)
      | Some (prop1, Inr interpolated) \<Rightarrow>
          (case addProperties rest (AList.update property (TInterp interpolated) tech) of
             Inl e \<Rightarrow> Inl e
           | Inr (rest1, technique1) \<Rightarrow> Inr ((property, InterpDef prop1) # rest1, technique1)))"

text \<open>An assignment \<^verbatim>\<open>technique.key = value\<close> that is made when the value is defined.\<close>

definition assign :: "string \<Rightarrow> 'a option \<Rightarrow> ('a \<Rightarrow> tvalue) \<Rightarrow> Technique \<Rightarrow> Technique" where
  "assign key v f tech =
     (case v of None \<Rightarrow> tech | Some x \<Rightarrow> AList.update key (f x) tech)"

definition addAttributes ::
  "'env StyleFields \<Rightarrow> Technique \<Rightarrow> failure + 'env StyleFields \<times> Technique" where
  "addAttributes currStyle tech =
     (let t1 = assign ''renderOrder'' (renderOrder currStyle) (\<lambda>x. TVal (JNum x)) tech;
          t2 = assign ''transient'' (transient currStyle) (\<lambda>x. TVal (JBool x)) t1;
          t3 = assign ''renderOrderBiasProperty'' (renderOrderBiasProperty currStyle)
                 (\<lambda>x. TVal (JStr x)) t2;
          t4 = assign ''label'' (labelProperty currStyle) (\<lambda>x. TVal (JStr x)) t3;
          t5 = assign ''renderOrderBiasRange'' (renderOrderBiasRange currStyle) TRange t4;
          t6 = assign ''renderOrderBiasGroup'' (renderOrderBiasGroup currStyle)
                 (\<lambda>x. TVal (JStr x)) t5
      in case attr currStyle of
           None \<Rightarrow> Inr (currStyle, t6)
         | Some a \<Rightarrow>
             (case addProperties a t6 of
                Inl e \<Rightarrow> Inl e
              | Inr (a1, t7) \<Rightarrow> Inr (currStyle\<lparr>attr := Some a1\<rparr>, t7)))"

text \<open>The loop \<^verbatim>\<open>for (const currStyle of styleStack) addAttributes(currStyle)\<close>.\<close>

fun addStackAttributes ::
  "'env StyleFields list \<Rightarrow> Technique \<Rightarrow> failure + 'env StyleFields list \<times> Technique" where
  "addStackAttributes [] tech = Inr ([], tech)"
| "addStackAttributes (currStyle # rest) tech =
     (case addAttributes currStyle tech of
        Inl e \<Rightarrow> Inl e
      | Inr (currStyle1, technique1) \<Rightarrow>
          (case addStackAttributes rest technique1 of
             Inl e \<Rightarrow> Inl e
           | Inr (rest1, technique2) \<Rightarrow> Inr (currStyle1 # rest1, technique2)))"

text \<open>
  \<^verbatim>\<open>checkAddTechnique(style, technique)\<close>, for the technique at address \<open>a\<close> of the heap.
\<close>

definition checkAddTechnique ::
  "'env StyleSetEvaluator \<Rightarrow> 'env StyleFields \<Rightarrow> nat \<Rightarrow>
     'env StyleSetEvaluator \<times> 'env StyleFields \<times> int" where
  "checkAddTechnique ev style a =
     (let index = (case p_index style of None \<Rightarrow> - 1 | Some i \<Rightarrow> int i) in
      if index < 0 then
        (let index1 = length (m_techniques ev) in
         (ev\<lparr>m_techniques := m_techniques ev @ [a],
             heap := (heap ev)[a := AList.update ''_index'' (TVal (JNum (real index1)))
                                      (heap ev ! a)]\<rparr>,
          style\<lparr>p_index := Some index1\<rparr>, int index1))
      else
        (ev\<lparr>heap := (heap ev)[a := AList.update ''_index'' (TVal (JNum (real_of_int index)))
                                     (heap ev ! a)]\<rparr>,
         style, index))"

text \<open>
  The state that \<^verbatim>\<open>processStyle\<close> works on: the evaluator, the style stack and the result
  array. The stack is pushed and popped at its end.
\<close>

record 'env walk =
  evaluator :: "'env StyleSetEvaluator"
  styleStack :: "'env StyleFields list"
  result :: "nat option list"

text \<open>The evaluation of the \<^verbatim>\<open>when\<close> condition, with the lazily parsed expression kept.\<close>

definition evaluateWhen ::
  "(string \<Rightarrow> 'env Expr option) \<Rightarrow> 'env \<Rightarrow> 'env StyleFields \<Rightarrow>
     failure + 'env StyleFields \<times> bool" where
  "evaluateWhen parse env style =
     (case when' style of
        None \<Rightarrow> Inr (style, True)
      | Some w \<Rightarrow>
          (case p_whenExpr style of
             Some e \<Rightarrow> Inr (style, e env)
           | None \<Rightarrow>
               (case parse w of
                  None \<Rightarrow> Inl ExprError
                | Some e \<Rightarrow> Inr (style\<lparr>p_whenExpr := Some e\<rparr>, e env))))"

text \<open>The leaf case of \<^verbatim>\<open>processStyle\<close>: a style without child styles.\<close>

definition processLeaf ::
  "'env walk \<Rightarrow> 'env StyleFields \<Rightarrow> failure + bool \<times> 'env walk \<times> 'env StyleFields" where
  "processLeaf w style =
     (case technique style of
        None \<Rightarrow> Inr (False, w, style)
      | Some name \<Rightarrow>
          (case p_index style of
             None \<Rightarrow>
               (case addStackAttributes (styleStack w) [(''name'', TVal (JStr name))] of
                  Inl e \<Rightarrow> Inl e
                | Inr (stack1, t1) \<Rightarrow>
                    (case addAttributes style t1 of
                       Inl e \<Rightarrow> Inl e
                     | Inr (style1, t2) \<Rightarrow>
                         let a = length (heap (evaluator w));
                             ev1 = (evaluator w)\<lparr>heap := heap (evaluator w) @ [t2]\<rparr>
                         in case checkAddTechnique ev1 style1 a of
                              (ev2, style2, index) \<Rightarrow>
                                Inr (final style2 = Some True,
                                     w\<lparr>evaluator := ev2, styleStack := stack1,
                                       result := result w @ [Some a]\<rparr>,
                                     style2)))
           | Some index \<Rightarrow>
               Inr (final style = Some True,
                    w\<lparr>result := result w @
                        [if index < length (m_techniques (evaluator w))
                         then Some (m_techniques (evaluator w) ! index) else None]\<rparr>,
                    style)))"

fun processStyle ::
    "(string \<Rightarrow> 'env Expr option) \<Rightarrow> 'env \<Rightarrow> 'env walk \<Rightarrow> 'env Style \<Rightarrow>
       failure + bool \<times> 'env walk \<times> 'env Style"
  and processStyles ::
    "(string \<Rightarrow> 'env Expr option) \<Rightarrow> 'env \<Rightarrow> 'env walk \<Rightarrow> 'env Style list \<Rightarrow>
       failure + bool \<times> 'env walk \<times> 'env Style list" where
  "processStyle parse env w (Style style sub) =
     (case evaluateWhen parse env style of
        Inl e \<Rightarrow> Inl e
      | Inr (style1, holds) \<Rightarrow>
          if \<not> holds then Inr (False, w, Style style1 sub)
          else
            (case sub of
               Some children \<Rightarrow>
                 (case processStyles parse env (w\<lparr>styleStack := styleStack w @ [style1]\<rparr>)
                         children of
                    Inl e \<Rightarrow> Inl e
                  | Inr (found, w1, children1) \<Rightarrow>
                      Inr (found, w1\<lparr>styleStack := butlast (styleStack w1)\<rparr>,
                           Style (last (styleStack w1)) (Some children1)))
             | None \<Rightarrow>
                 (case processLeaf w style1 of
                    Inl e \<Rightarrow> Inl e
                  | Inr (found, w1, style2) \<Rightarrow> Inr (found, w1, Style style2 None))))"
| "processStyles parse env w [] = Inr (False, w, [])"
| "processStyles parse env w (currStyle # rest) =
     (case processStyle parse env w currStyle of
        Inl e \<Rightarrow> Inl e
      | Inr (found, w1, currStyle1) \<Rightarrow>
          if found then Inr (True, w1, currStyle1 # rest)
          else
            (case processStyles parse env w1 rest of
               Inl e \<Rightarrow> Inl e
             | Inr (found1, w2, rest1) \<Rightarrow> Inr (found1, w2, currStyle1 # rest1)))"

text \<open>
  The loop of \<^verbatim>\<open>getMatchingTechniques\<close> over the style set, with its check of the style
  stack.
\<close>

fun matchingLoop ::
  "(string \<Rightarrow> 'env Expr option) \<Rightarrow> 'env \<Rightarrow> bool \<Rightarrow> 'env walk \<Rightarrow> 'env Style list \<Rightarrow>
     failure + 'env walk \<times> 'env Style list" where
  "matchingLoop parse env validate0 w [] = Inr (w, [])"
| "matchingLoop parse env validate0 w (currStyle # rest) =
     (if validate0 \<and> styleStack w \<noteq> [] then Inl InternalError
      else
        (case processStyle parse env w currStyle of
           Inl e \<Rightarrow> Inl e
         | Inr (found, w1, currStyle1) \<Rightarrow>
             if found then Inr (w1, currStyle1 # rest)
             else
               (case matchingLoop parse env validate0 w1 rest of
                  Inl e \<Rightarrow> Inl e
                | Inr (w2, rest1) \<Rightarrow> Inr (w2, currStyle1 # rest1))))"

definition getMatchingTechniques ::
  "(string \<Rightarrow> 'env Expr option) \<Rightarrow> 'env StyleSetEvaluator \<Rightarrow> 'env \<Rightarrow>
     failure + nat option list \<times> 'env StyleSetEvaluator" where
  "getMatchingTechniques parse ev env =
     (case matchingLoop parse env (validate' ev)
             \<lparr>evaluator = ev, styleStack = [], result = []\<rparr> (styleSet ev) of
        Inl e \<Rightarrow> Inl e
      | Inr (w, styleSet1) \<Rightarrow> Inr (result w, (evaluator w)\<lparr>styleSet := styleSet1\<rparr>))"

text \<open>
  Every index \<^verbatim>\<open>_index\<close> stored in a style is a position of \<^verbatim>\<open>m_techniques\<close> (of length \<open>n\<close>).
  This holds for a style set as a theme gives it, where no style has an \<^verbatim>\<open>_index\<close>.
\<close>

fun indexed :: "nat \<Rightarrow> 'env Style \<Rightarrow> bool"
  and indexeds :: "nat \<Rightarrow> 'env Style list \<Rightarrow> bool" where
  "indexed n (Style style sub) =
     ((case p_index style of None \<Rightarrow> True | Some i \<Rightarrow> i < n)
      \<and> (case sub of None \<Rightarrow> True | Some children \<Rightarrow> indexeds n children))"
| "indexeds n [] = True"
| "indexeds n (s # ss) = (indexed n s \<and> indexeds n ss)"

subsection \<open>Reading the render orders off a style set\<close>

text \<open>
  The leaf styles that the constructor gives an automatic render order: those with a
  technique and an \<^verbatim>\<open>attr\<close> object that has no \<^verbatim>\<open>renderOrder\<close>; and the value of
  \<^verbatim>\<open>attr._renderOrderAuto\<close>.
\<close>

definition automatic :: "'env StyleFields \<Rightarrow> bool" where
  "automatic style \<longleftrightarrow>
     technique style \<noteq> None
     \<and> (case attr style of None \<Rightarrow> False | Some a \<Rightarrow> map_of a ''renderOrder'' = None)"

definition renderOrderAuto :: "'env StyleFields \<Rightarrow> real option" where
  "renderOrderAuto style =
     (case attr style of
        None \<Rightarrow> None
      | Some a \<Rightarrow>
          (case map_of a ''_renderOrderAuto'' of Some (Plain (JNum r)) \<Rightarrow> Some r | _ \<Rightarrow> None))"

text \<open>
  The automatic render orders of these leaves, in document (depth-first) order; and the own
  members of all styles of a tree.
\<close>

fun autoOrders :: "'env Style \<Rightarrow> real option list"
  and autoOrderss :: "'env Style list \<Rightarrow> real option list" where
  "autoOrders (Style style sub) =
     (case sub of
        Some children \<Rightarrow> autoOrderss children
      | None \<Rightarrow> if automatic style then [renderOrderAuto style] else [])"
| "autoOrderss [] = []"
| "autoOrderss (s # ss) = autoOrders s @ autoOrderss ss"



section \<open>Properties of the phased loader\<close>

lemma update_cases:
  obtains (idle) "m_decodedTile (fst s) = None" "decodedTile (snd s) = None"
  | (captured) d where "m_decodedTile (fst s) = None" "decodedTile (snd s) = Some d"
  | (loading) d where "m_decodedTile (fst s) = Some d"
  by (cases "m_decodedTile (fst s)"; cases "decodedTile (snd s)") auto

lemma update_static:
  "m_loadPhaseDefinitions (fst (fst (update s))) = m_loadPhaseDefinitions (fst s)"
  "m_basicGeometryKinds (fst (fst (update s))) = m_basicGeometryKinds (fst s)"
  "cacheable (snd (fst (update s))) = cacheable (snd s)"
  by (simp_all add: update_def Let_def setDecodedTile_def nextPhase_def finish_def
        removeDecodedTile_def currentPhase_def numberOfPhases_def createKinds_loader
        createKinds_tile split_beta)

definition phased_inv :: "'d phased \<Rightarrow> bool" where
  "phased_inv s \<longleftrightarrow>
     m_currentPhaseIndex (fst s) \<le> length (m_loadPhaseDefinitions (fst s)) \<and>
     (\<forall>i < m_currentPhaseIndex (fst s).
        set (m_loadPhaseDefinitions (fst s) ! i) \<subseteq> m_geometryKindsLoaded (fst s))"

lemma phased_inv_step:
  assumes "cacheable t" "m_decodedTile l = Some d" "phased_inv (l, t)"
  shows "phased_inv (fst (update (l, t)))"
proof (cases "m_currentPhaseIndex l < length (m_loadPhaseDefinitions l)")
  case True
  show ?thesis
    using assms(3) True
    by (auto simp add: update_step [OF assms(1,2) True] Let_def phased_inv_def finish_def
        createKinds_loader less_Suc_eq)
next
  case False
  with assms show ?thesis by (simp add: update_done)
qed

lemma phased_inv_update:
  assumes "cacheable (snd s)" "phased_inv s"
  shows "phased_inv (fst (update s))"
proof (cases s)
  case (Pair l t)
  show ?thesis
  proof (cases rule: update_cases [of s])
    case idle
    with assms Pair show ?thesis by (simp add: update_False)
  next
    case (captured d)
    let ?l = "l\<lparr>m_decodedTile := Some d, m_currentPhaseIndex := 0, m_geometryKindsLoaded := {}\<rparr>"
    have "update (l, t) = update (?l, t)"
      using captured Pair by (intro update_capture) simp_all
    moreover have "phased_inv (fst (update (?l, t)))"
      using assms Pair by (intro phased_inv_step [where d = d]) (simp_all add: phased_inv_def)
    ultimately show ?thesis using Pair by simp
  next
    case (loading d)
    with assms Pair show ?thesis by (simp add: phased_inv_step)
  qed
qed


lemma updateToPhase_loop_stop:
  "\<not> currentPhase (fst s) < n \<Longrightarrow> updateToPhase_loop n b s = (s, b)"
  by (simp add: updateToPhase_loop.simps)

lemma updateToPhase_loop_break:
  "currentPhase (fst s) < n \<Longrightarrow> \<not> snd (update s) \<Longrightarrow> updateToPhase_loop n b s = update s"
  by (subst updateToPhase_loop.simps) (simp add: Let_def)

lemma updateToPhase_loop_again:
  "currentPhase (fst s) < n \<Longrightarrow> snd (update s) \<Longrightarrow>
     updateToPhase_loop n b s = updateToPhase_loop n True (fst (update s))"
  by (subst updateToPhase_loop.simps) (simp add: Let_def)

lemma updateToPhase_loop_preserves:
  assumes step: "\<And>s. P s \<Longrightarrow> P (fst (update s))" and "P s"
  shows "P (fst (updateToPhase_loop n b s))"
  using \<open>P s\<close>
proof (induction n b s rule: updateToPhase_loop.induct)
  case (1 toPhase didUpdate s)
  show ?case
  proof (cases "currentPhase (fst s) < toPhase")
    case False
    with "1.prems" show ?thesis by (simp add: updateToPhase_loop_stop)
  next
    case True
    show ?thesis
    proof (cases "snd (update s)")
      case False
      with True "1.prems" show ?thesis by (simp add: updateToPhase_loop_break step)
    next
      case u: True
      have "P (fst (updateToPhase_loop toPhase (snd (update s)) (fst (update s))))"
        using True u "1.prems" by (intro "1.IH") (simp_all add: step)
      with True u show ?thesis by (simp add: updateToPhase_loop_again)
    qed
  qed
qed

definition same_setup :: "'d phased \<Rightarrow> 'd phased \<Rightarrow> bool" where
  "same_setup s s' \<longleftrightarrow>
     m_loadPhaseDefinitions (fst s') = m_loadPhaseDefinitions (fst s) \<and>
     m_basicGeometryKinds (fst s') = m_basicGeometryKinds (fst s) \<and>
     cacheable (snd s') = cacheable (snd s)"

lemma same_setup_operate: "same_setup s (operate x s)"
proof (cases x)
  case (UpdateToPhase n)
  have "same_setup s (fst (updateToPhase_loop n False s))"
    by (rule updateToPhase_loop_preserves) (simp_all add: same_setup_def update_static)
  with UpdateToPhase show ?thesis by (simp add: updateToPhase_def)
qed (simp_all add: same_setup_def update_static setDecodedTile_def dispose_def split_beta)

lemma same_setup_operations: "same_setup s (operations xs s)"
proof (induction xs arbitrary: s)
  case (Cons x xs)
  from Cons [of "operate x s"] same_setup_operate [of s x] show ?case
    by (simp add: same_setup_def)
qed (simp add: same_setup_def)

lemma phased_inv_operate:
  assumes "cacheable (snd s)" "phased_inv s"
  shows "phased_inv (operate x s)"
proof (cases x)
  case (UpdateToPhase n)
  have "cacheable (snd (fst (updateToPhase_loop n False s)))
        \<and> phased_inv (fst (updateToPhase_loop n False s))"
    by (rule updateToPhase_loop_preserves) (simp_all add: assms update_static phased_inv_update)
  with UpdateToPhase show ?thesis by (simp add: updateToPhase_def)
next
  case Update
  with assms show ?thesis by (simp add: phased_inv_update)
qed (use assms in \<open>simp_all add: phased_inv_def setDecodedTile_def dispose_def split_beta\<close>)

lemma phased_inv_operations:
  assumes "cacheable (snd s)" "phased_inv s"
  shows "phased_inv (operations xs s)"
  using assms
proof (induction xs arbitrary: s)
  case (Cons x xs)
  have "cacheable (snd (operate x s))"
    using same_setup_operate [of s x] Cons.prems by (simp add: same_setup_def)
  with Cons show ?case by (simp add: phased_inv_operate)
qed simp

text \<open>
  Claim C6, as amended. For a loader on a tile with a cacheable data source, whose basic
  geometry kinds all occur in some phase of its phase list: after every sequence of
  \<^verbatim>\<open>setDecodedTile\<close>, \<^verbatim>\<open>update\<close>, \<^verbatim>\<open>updateToPhase\<close> and \<^verbatim>\<open>dispose\<close> calls (and of DecodedTile
  deliveries to the tile), \<^verbatim>\<open>allGeometryLoaded\<close> implies \<^verbatim>\<open>basicGeometryLoaded\<close>.
\<close>

theorem basic_before_all:
  assumes "cacheable t"
    and "basicGeometryKinds \<subseteq> \<Union> (set ` set loadPhaseDefinitions)"
  shows "allGeometryLoaded
           (fst (operations xs (newPhasedTileGeometryLoader loadPhaseDefinitions basicGeometryKinds, t)))
         \<longrightarrow> basicGeometryLoaded
           (fst (operations xs (newPhasedTileGeometryLoader loadPhaseDefinitions basicGeometryKinds, t)))"
proof
  let ?s0 = "(newPhasedTileGeometryLoader loadPhaseDefinitions basicGeometryKinds, t)"
  let ?l = "fst (operations xs ?s0)"
  assume a: "allGeometryLoaded ?l"
  have "phased_inv ?s0" by (simp add: phased_inv_def newPhasedTileGeometryLoader_def)
  then have inv: "phased_inv (operations xs ?s0)"
    using assms(1) by (intro phased_inv_operations) simp_all
  have cfg: "m_loadPhaseDefinitions ?l = loadPhaseDefinitions"
    "m_basicGeometryKinds ?l = basicGeometryKinds"
    using same_setup_operations [of ?s0 xs]
    by (simp_all add: same_setup_def newPhasedTileGeometryLoader_def)
  have "set ks \<subseteq> m_geometryKindsLoaded ?l" if "ks \<in> set loadPhaseDefinitions" for ks
  proof -
    from that obtain i where i: "i < length loadPhaseDefinitions" "loadPhaseDefinitions ! i = ks"
      by (auto simp: in_set_conv_nth)
    with a inv cfg show ?thesis
      by (auto simp: allGeometryLoaded_def currentPhase_def phased_inv_def)
  qed
  with assms(2) cfg show "basicGeometryLoaded ?l"
    by (auto simp: basicGeometryLoaded_def)
qed

theorem basic_before_all_witness:
  "allGeometryLoaded
     (fst (operations [Update, Update, Update, Update, Update]
        (newPhasedTileGeometryLoader DefaultPhases DefaultBasicGeometryKinds,
         \<lparr>decodedTile = Some (), disposed = False, isVisible = True, hasGeometry = False,
          cacheable = True, calls = []\<rparr>)))
   \<and> basicGeometryLoaded
     (fst (operations [Update, Update, Update, Update, Update]
        (newPhasedTileGeometryLoader DefaultPhases DefaultBasicGeometryKinds,
         \<lparr>decodedTile = Some (), disposed = False, isVisible = True, hasGeometry = False,
          cacheable = True, calls = []\<rparr>)))"
proof -
  have a: "allGeometryLoaded
     (fst (operations [Update, Update, Update, Update, Update]
        (newPhasedTileGeometryLoader DefaultPhases DefaultBasicGeometryKinds,
         \<lparr>decodedTile = Some (), disposed = False, isVisible = True, hasGeometry = False,
          cacheable = True, calls = []\<rparr>)))"
    by code_simp
  have b: "DefaultBasicGeometryKinds \<subseteq> \<Union> (set ` set DefaultPhases)"
    by (simp add: DefaultBasicGeometryKinds_def DefaultPhases_def)
  show ?thesis
    using a basic_before_all [OF _ b, of "\<lparr>decodedTile = Some (), disposed = False, isVisible = True, hasGeometry = False,
          cacheable = True, calls = []\<rparr>" "[Update, Update, Update, Update, Update]"]
    by simp
qed

text \<open>
  Claim C6 as stated fails: on a tile with a non-cacheable data source, one \<^verbatim>\<open>update()\<close> of a
  loader with the default phases and basic kinds moves the cursor past the last phase with no
  kind loaded, so \<^verbatim>\<open>allGeometryLoaded\<close> is true and \<^verbatim>\<open>basicGeometryLoaded\<close> is false.
\<close>

theorem basic_before_all_counterexample:
  "\<not> (allGeometryLoaded
     (fst (operations [Update]
        (newPhasedTileGeometryLoader DefaultPhases DefaultBasicGeometryKinds,
         \<lparr>decodedTile = Some (), disposed = False, isVisible = True, hasGeometry = False,
          cacheable = False, calls = []\<rparr>)))
   \<longrightarrow> basicGeometryLoaded
     (fst (operations [Update]
        (newPhasedTileGeometryLoader DefaultPhases DefaultBasicGeometryKinds,
         \<lparr>decodedTile = Some (), disposed = False, isVisible = True, hasGeometry = False,
          cacheable = False, calls = []\<rparr>))))"
  by code_simp

lemma updates_shape:
  assumes "cacheable t" "decodedTile t = Some d"
  shows "cacheable (snd (updates k (newPhasedTileGeometryLoader ps b, t))) \<and> m_loadPhaseDefinitions (fst (updates k (newPhasedTileGeometryLoader ps b, t))) = ps
         \<and> m_currentPhaseIndex (fst (updates k (newPhasedTileGeometryLoader ps b, t))) = min k (length ps)
         \<and> (if k = 0 then m_decodedTile (fst (updates k (newPhasedTileGeometryLoader ps b, t))) = None \<and> decodedTile (snd (updates k (newPhasedTileGeometryLoader ps b, t))) = Some d
             else if k < length ps \<or> ps = [] then m_decodedTile (fst (updates k (newPhasedTileGeometryLoader ps b, t))) = Some d
             else m_decodedTile (fst (updates k (newPhasedTileGeometryLoader ps b, t))) = None \<and> decodedTile (snd (updates k (newPhasedTileGeometryLoader ps b, t))) = None)"
proof (induction k)
  case 0
  show ?case using assms(1,2) by (simp add: newPhasedTileGeometryLoader_def)
next
  case (Suc k)
  let ?s = "updates k (newPhasedTileGeometryLoader ps b, t)"
  obtain l u where s: "?s = (l, u)" by (cases ?s)
  from Suc s have c: "cacheable u" and p: "m_loadPhaseDefinitions l = ps"
    and i: "m_currentPhaseIndex l = min k (length ps)" by simp_all
  show ?case
  proof (cases "k = 0")
    case True
    with Suc s have n: "m_decodedTile l = None" and dt: "decodedTile u = Some d" by simp_all
    let ?l = "l\<lparr>m_decodedTile := Some d, m_currentPhaseIndex := 0, m_geometryKindsLoaded := {}\<rparr>"
    have e: "update (l, u) = update (?l, u)" by (rule update_capture [OF n dt])
    show ?thesis
    proof (cases "ps = []")
      case e1: True
      have "update (?l, u) = ((?l, u), False)"
        using c p e1 by (intro update_done [where d = d]) simp_all
      with e s True e1 c p show ?thesis by simp
    next
      case False
      then have lt: "m_currentPhaseIndex ?l < length (m_loadPhaseDefinitions ?l)"
        using p by simp
      have md: "m_decodedTile ?l = Some d" by simp
      from False have "Suc 0 < length ps \<or> length ps = Suc 0" by (cases ps) auto
      then show ?thesis
        using s True False c p e
        by (auto simp add: update_step [OF c md lt] Let_def finish_def removeDecodedTile_def
            createKinds_loader createKinds_tile simp del: One_nat_def)
    qed
  next
    case False
    show ?thesis
    proof (cases "k < length ps")
      case True
      with Suc s False have md: "m_decodedTile l = Some d" by simp
      from True i p have lt: "m_currentPhaseIndex l < length (m_loadPhaseDefinitions l)" by simp
      from True have "Suc k < length ps \<or> length ps = Suc k" by arith
      then show ?thesis
        using s True False c p i md
        by (auto simp add: update_step [OF c md lt] Let_def finish_def removeDecodedTile_def
            createKinds_loader createKinds_tile)
    next
      case k: False
      show ?thesis
      proof (cases "ps = []")
        case True
        with Suc s False have md: "m_decodedTile l = Some d" by simp
        have "update (l, u) = ((l, u), False)"
          using c p True by (intro update_done [OF _ md]) simp_all
        with s True False c p i md show ?thesis by simp
      next
        case ne: False
        with Suc s False k have "m_decodedTile l = None" "decodedTile u = None" by simp_all
        then have "update (l, u) = ((l, u), False)" using c by (simp add: update_False)
        with s ne False k c p i \<open>m_decodedTile l = None\<close> \<open>decodedTile u = None\<close>
        show ?thesis by simp
      qed
    qed
  qed
qed


lemma update_progress_first:
  assumes "cacheable t" "decodedTile t = Some d" "ps \<noteq> []"
  shows "snd (update (newPhasedTileGeometryLoader ps b, t))"
proof -
  let ?l = "newPhasedTileGeometryLoader ps b :: 'a PhasedTileGeometryLoader"
  let ?l' = "?l\<lparr>m_decodedTile := Some d, m_currentPhaseIndex := 0, m_geometryKindsLoaded := {}\<rparr>"
  have "update (?l, t) = update (?l', t)"
    using assms(2) by (intro update_capture) (simp_all add: newPhasedTileGeometryLoader_def)
  moreover have "snd (update (?l', t))"
    using assms(3)
    by (subst update_step [OF assms(1), where d = d])
       (simp_all add: newPhasedTileGeometryLoader_def Let_def)
  ultimately show ?thesis by simp
qed

lemma update_idle_first:
  assumes "cacheable t" "decodedTile t = Some d"
  shows "update (newPhasedTileGeometryLoader [] b, t)
         = ((newPhasedTileGeometryLoader [] b\<lparr>m_decodedTile := Some d\<rparr>, t), False)"
  using assms
  by (simp add: update_def Let_def setDecodedTile_def newPhasedTileGeometryLoader_def
      currentPhase_def numberOfPhases_def)

text \<open>
  Claim C4. A freshly constructed loader with \<open>N\<close> phases, on a tile that has a DecodedTile
  and a cacheable data source: each of the first \<open>N\<close> calls of \<^verbatim>\<open>update()\<close> returns true and
  advances \<^verbatim>\<open>currentPhase\<close> by one, \<^verbatim>\<open>allGeometryLoaded\<close> is false before the \<open>N\<close>-th call and
  true from it onward, and every later call returns false, calls no backend, and leaves the
  loaded kinds and the phase as they are (after the first call it leaves the whole state
  as it is).
\<close>

theorem phased_update_progress:
  assumes "cacheable t" and "decodedTile t = Some d"
  shows "(\<forall>k < length ps.
            snd (update (updates k (newPhasedTileGeometryLoader ps b, t)))
          \<and> currentPhase (fst (updates (Suc k) (newPhasedTileGeometryLoader ps b, t)))
              = currentPhase (fst (updates k (newPhasedTileGeometryLoader ps b, t))) + 1
          \<and> \<not> allGeometryLoaded (fst (updates k (newPhasedTileGeometryLoader ps b, t))))
       \<and> (\<forall>k \<ge> length ps.
            allGeometryLoaded (fst (updates k (newPhasedTileGeometryLoader ps b, t)))
          \<and> \<not> snd (update (updates k (newPhasedTileGeometryLoader ps b, t)))
          \<and> calls (snd (updates (Suc k) (newPhasedTileGeometryLoader ps b, t)))
              = calls (snd (updates k (newPhasedTileGeometryLoader ps b, t)))
          \<and> loadedKinds (fst (updates (Suc k) (newPhasedTileGeometryLoader ps b, t)))
              = loadedKinds (fst (updates k (newPhasedTileGeometryLoader ps b, t)))
          \<and> currentPhase (fst (updates (Suc k) (newPhasedTileGeometryLoader ps b, t)))
              = currentPhase (fst (updates k (newPhasedTileGeometryLoader ps b, t)))
          \<and> (0 < k \<longrightarrow> update (updates k (newPhasedTileGeometryLoader ps b, t))
                = (updates k (newPhasedTileGeometryLoader ps b, t), False)))"
proof (intro conjI allI impI)
  fix k
  let ?s = "updates k (newPhasedTileGeometryLoader ps b, t)"
  note sh = updates_shape [OF assms, of k ps b]
  note sh' = updates_shape [OF assms, of "Suc k" ps b]
  assume k: "k < length ps"
  from sh sh' k show "currentPhase (fst (updates (Suc k) (newPhasedTileGeometryLoader ps b, t)))
      = currentPhase (fst ?s) + 1"
    by (simp add: currentPhase_def)
  from sh k show "\<not> allGeometryLoaded (fst ?s)"
    by (simp add: allGeometryLoaded_def currentPhase_def)
  show "snd (update ?s)"
  proof (cases "k = 0")
    case True
    with k assms show ?thesis by (simp add: update_progress_first)
  next
    case False
    obtain l u where s: "?s = (l, u)" by (cases ?s)
    from sh s k False have c: "cacheable u" and md: "m_decodedTile l = Some d"
      and lt: "m_currentPhaseIndex l < length (m_loadPhaseDefinitions l)" by simp_all
    show ?thesis by (simp add: s update_step [OF c md lt] Let_def)
  qed
next
  fix k
  let ?s = "updates k (newPhasedTileGeometryLoader ps b, t)"
  note sh = updates_shape [OF assms, of k ps b]
  assume k: "length ps \<le> k"
  from sh k show "allGeometryLoaded (fst ?s)"
    by (simp add: allGeometryLoaded_def currentPhase_def)
  have *: "\<not> snd (update ?s) \<and> calls (snd (fst (update ?s))) = calls (snd ?s)
      \<and> loadedKinds (fst (fst (update ?s))) = loadedKinds (fst ?s)
      \<and> currentPhase (fst (fst (update ?s))) = currentPhase (fst ?s)
      \<and> (0 < k \<longrightarrow> update ?s = (?s, False))"
  proof (cases "k = 0")
    case True
    with k have "ps = []" by simp
    with True assms show ?thesis
      by (simp add: update_idle_first loadedKinds_def currentPhase_def)
  next
    case False
    obtain l u where s: "?s = (l, u)" by (cases ?s)
    from sh s have c: "cacheable u" and i: "m_currentPhaseIndex l = min k (length ps)"
      and p: "m_loadPhaseDefinitions l = ps" by simp_all
    have "update (l, u) = ((l, u), False)"
    proof (cases "ps = []")
      case True
      with sh s False have md: "m_decodedTile l = Some d" by simp
      show ?thesis using c p True by (intro update_done [OF _ md]) simp_all
    next
      case ne: False
      with sh s False k have "m_decodedTile l = None" "decodedTile u = None" by simp_all
      then show ?thesis using c by (simp add: update_False)
    qed
    with s show ?thesis by simp
  qed
  from * show "\<not> snd (update ?s)" by simp
  from * show "calls (snd (updates (Suc k) (newPhasedTileGeometryLoader ps b, t))) = calls (snd ?s)"
    by simp
  from * show "loadedKinds (fst (updates (Suc k) (newPhasedTileGeometryLoader ps b, t)))
      = loadedKinds (fst ?s)" by simp
  from * show "currentPhase (fst (updates (Suc k) (newPhasedTileGeometryLoader ps b, t)))
      = currentPhase (fst ?s)" by simp
  from * show "0 < k \<Longrightarrow> update ?s = (?s, False)" by simp
qed











theorem phased_update_progress_witness:
  "snd (update (updates 4 (newPhasedTileGeometryLoader DefaultPhases DefaultBasicGeometryKinds,
       \<lparr>decodedTile = Some (), disposed = False, isVisible = True, hasGeometry = False,
        cacheable = True, calls = []\<rparr>)))
   \<and> \<not> allGeometryLoaded (fst (updates 4
       (newPhasedTileGeometryLoader DefaultPhases DefaultBasicGeometryKinds,
        \<lparr>decodedTile = Some (), disposed = False, isVisible = True, hasGeometry = False,
         cacheable = True, calls = []\<rparr>)))
   \<and> allGeometryLoaded (fst (updates 5
       (newPhasedTileGeometryLoader DefaultPhases DefaultBasicGeometryKinds,
        \<lparr>decodedTile = Some (), disposed = False, isVisible = True, hasGeometry = False,
         cacheable = True, calls = []\<rparr>)))
   \<and> \<not> snd (update (updates 5
       (newPhasedTileGeometryLoader DefaultPhases DefaultBasicGeometryKinds,
        \<lparr>decodedTile = Some (), disposed = False, isVisible = True, hasGeometry = False,
         cacheable = True, calls = []\<rparr>)))"
proof -
  let ?t = "\<lparr>decodedTile = Some (), disposed = False, isVisible = True, hasGeometry = False,
        cacheable = True, calls = []\<rparr>"
  have c: "cacheable ?t" and d: "decodedTile ?t = Some ()" by simp_all
  have n: "length DefaultPhases = 5" by (simp add: DefaultPhases_def)
  note th = phased_update_progress [OF c d, of DefaultPhases DefaultBasicGeometryKinds,
      unfolded n]
  from th [THEN conjunct1, rule_format, of 4] th [THEN conjunct2, rule_format, of 5]
  show ?thesis by simp
qed

section \<open>Properties of the phased manager\<close>

lemma loop_idle:
  assumes "cacheable t" "m_decodedTile l = None" "decodedTile t = None"
  shows "fst (updateToPhase_loop to b (l, t)) = (l, t)"
proof (cases "currentPhase (fst (l, t)) < to")
  case True
  have "update (l, t) = ((l, t), False)" using assms by (simp add: update_False)
  with True show ?thesis by (simp add: updateToPhase_loop_break)
next
  case False
  then show ?thesis by (simp add: updateToPhase_loop_stop)
qed

lemma loop_loading:
  assumes "cacheable t" "m_decodedTile l = Some d"
    and "m_currentPhaseIndex l \<le> length (m_loadPhaseDefinitions l)"
  shows "m_currentPhaseIndex (fst (fst (updateToPhase_loop to b (l, t))))
         = max (m_currentPhaseIndex l) (min to (length (m_loadPhaseDefinitions l)))"
  using assms
proof (induction "to - m_currentPhaseIndex l" arbitrary: l t b)
  case 0
  then have "\<not> currentPhase (fst (l, t)) < to" by (simp add: currentPhase_def)
  then have "updateToPhase_loop to b (l, t) = ((l, t), b)" by (rule updateToPhase_loop_stop)
  with 0 show ?case by simp
next
  case (Suc n)
  then have lt: "currentPhase (fst (l, t)) < to" by (simp add: currentPhase_def)
  show ?case
  proof (cases "m_currentPhaseIndex l < length (m_loadPhaseDefinitions l)")
    case False
    with Suc.prems have "update (l, t) = ((l, t), False)" by (simp add: update_done)
    with lt have "updateToPhase_loop to b (l, t) = ((l, t), False)"
      by (simp add: updateToPhase_loop_break)
    with False Suc.prems show ?thesis by simp
  next
    case True
    let ?s2 = "createKinds (m_loadPhaseDefinitions l ! m_currentPhaseIndex l) (l, t)"
    let ?l3 = "(fst ?s2)\<lparr>m_currentPhaseIndex := m_currentPhaseIndex l + 1\<rparr>"
    note st = update_step [OF Suc.prems(1,2) True]
    show ?thesis
    proof (cases "m_currentPhaseIndex l + 1 < length (m_loadPhaseDefinitions l)")
      case more: True
      then have u: "update (l, t) = ((?l3, snd ?s2), True)" by (simp add: st Let_def)
      have "m_currentPhaseIndex (fst (fst (updateToPhase_loop to True (?l3, snd ?s2))))
          = max (m_currentPhaseIndex ?l3) (min to (length (m_loadPhaseDefinitions ?l3)))"
        using Suc.hyps(2) Suc.prems more
        by (intro Suc.hyps(1)) (simp_all add: createKinds_loader createKinds_tile)
      moreover have "updateToPhase_loop to b (l, t) = updateToPhase_loop to True (?l3, snd ?s2)"
        using lt u by (simp add: updateToPhase_loop_again)
      ultimately show ?thesis
        using more Suc.hyps(2) by (simp add: createKinds_loader)
    next
      case last: False
      then have u: "update (l, t) = (finish (?l3, snd ?s2), True)" by (simp add: st Let_def)
      have "fst (updateToPhase_loop to True (finish (?l3, snd ?s2))) = finish (?l3, snd ?s2)"
        using Suc.prems(1)
        by (simp add: finish_def removeDecodedTile_def loop_idle createKinds_tile)
      moreover have "updateToPhase_loop to b (l, t)
          = updateToPhase_loop to True (finish (?l3, snd ?s2))"
        using lt u by (simp add: updateToPhase_loop_again)
      ultimately show ?thesis
        using last True Suc.hyps(2) by (simp add: finish_def createKinds_loader)
    qed
  qed
qed


lemma updateToPhase_setup:
  "m_loadPhaseDefinitions (fst (fst (updateToPhase n s))) = m_loadPhaseDefinitions (fst s)"
  "cacheable (snd (fst (updateToPhase n s))) = cacheable (snd s)"
proof -
  have "same_setup s (fst (updateToPhase_loop n False s))"
    by (rule updateToPhase_loop_preserves) (simp_all add: same_setup_def update_static)
  then show "m_loadPhaseDefinitions (fst (fst (updateToPhase n s))) = m_loadPhaseDefinitions (fst s)"
    "cacheable (snd (fst (updateToPhase n s))) = cacheable (snd s)"
    by (simp_all add: same_setup_def updateToPhase_def)
qed

lemma updateToPhase_reached:
  "to \<le> currentPhase l \<Longrightarrow> fst (updateToPhase to (l, t)) = (l, t)"
  by (simp add: updateToPhase_def updateToPhase_loop_stop)

lemma updateToPhase_next:
  assumes "cacheable t" and "currentPhase l \<le> numberOfPhases l"
  shows "currentPhase (fst (fst (updateToPhase (Suc (currentPhase l)) (l, t)))) = currentPhase l
       \<or> currentPhase (fst (fst (updateToPhase (Suc (currentPhase l)) (l, t))))
           = Suc (currentPhase l)"
proof (cases rule: update_cases [of "(l, t)"])
  case idle
  with assms(1) show ?thesis by (simp add: updateToPhase_def loop_idle)
next
  case (loading d)
  with assms loop_loading [of t l d "Suc (currentPhase l)" False]
  show ?thesis
    by (simp add: updateToPhase_def currentPhase_def numberOfPhases_def) arith
next
  case (captured d)
  let ?p = "m_currentPhaseIndex l" and ?n = "length (m_loadPhaseDefinitions l)"
  let ?l = "l\<lparr>m_decodedTile := Some d, m_currentPhaseIndex := 0, m_geometryKindsLoaded := {}\<rparr>"
  from captured have e: "update (l, t) = update (?l, t)" by (intro update_capture) simp_all
  have lt: "currentPhase (fst (l, t)) < Suc (currentPhase l)" by simp
  show ?thesis
  proof (cases "?n = 0")
    case True
    then have "update (?l, t) = ((?l, t), False)"
      using assms(1) by (intro update_done [where d = d]) simp_all
    with e lt have "updateToPhase_loop (Suc (currentPhase l)) False (l, t) = ((?l, t), False)"
      by (simp add: updateToPhase_loop_break)
    with True assms(2) show ?thesis
      by (simp add: updateToPhase_def currentPhase_def numberOfPhases_def)
  next
    case False
    then have pos: "m_currentPhaseIndex ?l < length (m_loadPhaseDefinitions ?l)" by simp
    have md: "m_decodedTile ?l = Some d" by simp
    let ?s2 = "createKinds (m_loadPhaseDefinitions l ! 0) (?l, t)"
    let ?l3 = "(fst ?s2)\<lparr>m_currentPhaseIndex := 1\<rparr>"
    note st = update_step [OF assms(1) md pos]
    show ?thesis
    proof (cases "1 < ?n")
      case True
      then have u: "update (l, t) = ((?l3, snd ?s2), True)" by (simp add: e st Let_def)
      have "m_currentPhaseIndex (fst (fst (updateToPhase_loop (Suc ?p) True (?l3, snd ?s2))))
          = max (m_currentPhaseIndex ?l3) (min (Suc ?p) (length (m_loadPhaseDefinitions ?l3)))"
        using assms(1) True
        by (intro loop_loading [where d = d]) (simp_all add: createKinds_loader createKinds_tile)
      moreover have "updateToPhase_loop (Suc ?p) False (l, t)
          = updateToPhase_loop (Suc ?p) True (?l3, snd ?s2)"
        using lt u by (simp add: updateToPhase_loop_again currentPhase_def)
      ultimately show ?thesis
        using True assms(2)
        by (simp add: updateToPhase_def currentPhase_def numberOfPhases_def createKinds_loader)
           arith
    next
      case one: False
      then have u: "update (l, t) = (finish (?l3, snd ?s2), True)" by (simp add: e st Let_def)
      have "fst (updateToPhase_loop (Suc ?p) True (finish (?l3, snd ?s2))) = finish (?l3, snd ?s2)"
        using assms(1)
        by (simp add: finish_def removeDecodedTile_def loop_idle createKinds_tile)
      moreover have "updateToPhase_loop (Suc ?p) False (l, t)
          = updateToPhase_loop (Suc ?p) True (finish (?l3, snd ?s2))"
        using lt u by (simp add: updateToPhase_loop_again currentPhase_def)
      ultimately show ?thesis
        using one False assms(2)
        by (simp add: updateToPhase_def currentPhase_def numberOfPhases_def finish_def
            createKinds_loader) arith
    qed
  qed
qed

definition bounded :: "'d phased \<Rightarrow> bool" where
  "bounded s \<longleftrightarrow> cacheable (snd s) \<and> currentPhase (fst s) \<le> numberOfPhases (fst s)"

lemma bounded_update:
  assumes "bounded s"
  shows "bounded (fst (update s))"
proof (cases s)
  case (Pair l t)
  with assms have c: "cacheable t" by (simp add: bounded_def)
  show ?thesis
  proof (cases rule: update_cases [of s])
    case idle
    with assms Pair show ?thesis by (simp add: update_False bounded_def)
  next
    case (captured d)
    let ?l = "l\<lparr>m_decodedTile := Some d, m_currentPhaseIndex := 0, m_geometryKindsLoaded := {}\<rparr>"
    have "update (l, t) = update (?l, t)"
      using captured Pair by (intro update_capture) simp_all
    moreover have "phased_inv (fst (update (?l, t)))"
      using c by (intro phased_inv_step [where d = d]) (simp_all add: phased_inv_def)
    ultimately show ?thesis
      using Pair c
      by (simp add: bounded_def phased_inv_def update_static currentPhase_def numberOfPhases_def)
  next
    case (loading d)
    show ?thesis
    proof (cases "m_currentPhaseIndex l < length (m_loadPhaseDefinitions l)")
      case True
      from loading Pair have md: "m_decodedTile l = Some d" by simp
      show ?thesis
        using True c Pair
        by (simp add: update_step [OF c md True] Let_def bounded_def finish_def
            removeDecodedTile_def currentPhase_def numberOfPhases_def createKinds_loader
            createKinds_tile)
    next
      case False
      with loading Pair c have "update (l, t) = ((l, t), False)" by (simp add: update_done)
      with assms Pair show ?thesis by simp
    qed
  qed
qed

lemma bounded_updateToPhase:
  assumes "cacheable t" and "currentPhase l \<le> numberOfPhases l"
  shows "bounded (fst (updateToPhase n (l, t)))"
proof -
  have "bounded (l, t)" using assms by (simp add: bounded_def)
  then show ?thesis
    unfolding updateToPhase_def
    by (rule updateToPhase_loop_preserves [rotated]) (rule bounded_update)
qed

text \<open>All cursors of the tiles with a loader are at \<open>L\<close> or at \<open>L + 1\<close>.\<close>

definition around :: "nat \<Rightarrow> 'd managed list \<Rightarrow> bool" where
  "around L tiles \<longleftrightarrow> (\<forall>p \<in> set (currentPhases tiles). p = L \<or> p = Suc L)"

lemma around_Cons:
  "around L ((t, None) # tiles) = around L tiles"
  "around L ((t, Some l) # tiles) = ((currentPhase l = L \<or> currentPhase l = Suc L) \<and> around L tiles)"
  by (simp_all add: around_def)

lemma cacheableTiles_Cons:
  "cacheableTiles ((t, lo) # tiles) \<longleftrightarrow>
     cacheable t \<and> (\<forall>l. lo = Some l \<longrightarrow> currentPhase l \<le> numberOfPhases l) \<and> cacheableTiles tiles"
  by (simp add: cacheableTiles_def)

lemma updateTilesIfNeeded_loop_around:
  assumes "around L tiles" "cacheableTiles tiles"
  shows "around L (updateTilesIfNeeded_loop m (Suc L) n tiles)
       \<and> cacheableTiles (updateTilesIfNeeded_loop m (Suc L) n tiles)"
  using assms
proof (induction m "Suc L" n tiles rule: updateTilesIfNeeded_loop.induct)
  case (1 m numTilesUpdated)
  then show ?case by simp
next
  case (2 m numTilesUpdated t tiles)
  then show ?case by (simp add: around_Cons cacheableTiles_Cons)
next
  case (3 m numTilesUpdated t l tiles)
  let ?r = "updateToPhase (Suc L) (l, t)"
  from "3.prems" have c: "cacheable t" and b: "currentPhase l \<le> numberOfPhases l"
    and rest: "around L tiles" "cacheableTiles tiles"
    and p: "currentPhase l = L \<or> currentPhase l = Suc L"
    by (simp_all add: around_Cons cacheableTiles_Cons)
  have bd: "bounded (fst ?r)" using c b by (rule bounded_updateToPhase)
  have ph: "currentPhase (fst (fst ?r)) = L \<or> currentPhase (fst (fst ?r)) = Suc L"
  proof (cases "currentPhase l = L")
    case True
    with updateToPhase_next [OF c b] show ?thesis by simp
  next
    case False
    with p have "Suc L \<le> currentPhase l" by simp
    then have "fst ?r = (l, t)" by (rule updateToPhase_reached)
    with p show ?thesis by simp
  qed
  have x: "around L ((snd (fst ?r), Some (fst (fst ?r))) # ts)
      \<and> cacheableTiles ((snd (fst ?r), Some (fst (fst ?r))) # ts)"
    if "around L ts" "cacheableTiles ts" for ts
    using that bd ph by (simp add: around_Cons cacheableTiles_Cons bounded_def)
  show ?case
  proof (cases "snd ?r")
    case False
    have "around L (updateTilesIfNeeded_loop m (Suc L) numTilesUpdated tiles)
        \<and> cacheableTiles (updateTilesIfNeeded_loop m (Suc L) numTilesUpdated tiles)"
      by (rule "3.hyps"(2) [OF refl refl False rest])
    then have "around L ((snd (fst ?r), Some (fst (fst ?r)))
          # updateTilesIfNeeded_loop m (Suc L) numTilesUpdated tiles)
        \<and> cacheableTiles ((snd (fst ?r), Some (fst (fst ?r)))
          # updateTilesIfNeeded_loop m (Suc L) numTilesUpdated tiles)"
      using x by blast
    with False show ?thesis by (simp add: Let_def)
  next
    case True
    show ?thesis
    proof (cases "isDynamicFrame (m_mapView m) \<and> 0 < m_maximumUpdatesPerFrame m
          \<and> m_maximumUpdatesPerFrame m \<le> numTilesUpdated + 1")
      case stop: True
      with True x [OF rest] show ?thesis by (simp add: Let_def)
    next
      case False
      have "around L (updateTilesIfNeeded_loop m (Suc L) (numTilesUpdated + 1) tiles)
          \<and> cacheableTiles (updateTilesIfNeeded_loop m (Suc L) (numTilesUpdated + 1) tiles)"
        using False by (intro "3.hyps"(1) [OF refl refl True refl _ rest]) blast
      then have "around L ((snd (fst ?r), Some (fst (fst ?r)))
            # updateTilesIfNeeded_loop m (Suc L) (numTilesUpdated + 1) tiles)
          \<and> cacheableTiles ((snd (fst ?r), Some (fst (fst ?r)))
            # updateTilesIfNeeded_loop m (Suc L) (numTilesUpdated + 1) tiles)"
        using x by blast
      with True False show ?thesis by (auto simp add: Let_def)
    qed
  qed
qed


lemma Min_insert_absorb:
  "finite S \<Longrightarrow> a \<le> p \<Longrightarrow> Min (insert a (insert p S)) = Min (insert a S)"
  by (cases "S = {}") (auto simp: min_def)

lemma lowestPhase_loop_Some:
  "lowestPhase_loop (Some a) tiles = Some (Min (insert a (set (currentPhases tiles))))"
proof (induction tiles arbitrary: a)
  case (Cons x tiles)
  obtain t lo where x: "x = (t, lo)" by (cases x)
  show ?case
  proof (cases lo)
    case None
    with Cons x show ?thesis by simp
  next
    case (Some l)
    show ?thesis
    proof (cases "currentPhase l < a")
      case True
      then have "Min (insert (currentPhase l) (insert a (set (currentPhases tiles))))
          = Min (insert (currentPhase l) (set (currentPhases tiles)))"
        by (intro Min_insert_absorb) simp_all
      with True Cons [of "currentPhase l"] x Some show ?thesis
        by (simp add: insert_commute)
    next
      case False
      then have "Min (insert a (insert (currentPhase l) (set (currentPhases tiles))))
          = Min (insert a (set (currentPhases tiles)))"
        by (intro Min_insert_absorb) simp_all
      with False Cons [of a] x Some show ?thesis by simp
    qed
  qed
qed simp

lemma lowestPhase_loop_None:
  "lowestPhase_loop None tiles =
     (if currentPhases tiles = [] then None else Some (Min (set (currentPhases tiles))))"
proof (induction tiles)
  case (Cons x tiles)
  obtain t lo where x: "x = (t, lo)" by (cases x)
  show ?case
  proof (cases lo)
    case None
    with Cons x show ?thesis by simp
  next
    case (Some l)
    with x show ?thesis by (simp add: lowestPhase_loop_Some)
  qed
qed simp

lemma around_spread: "around L tiles \<Longrightarrow> phaseSpread tiles \<le> 1"
proof (cases "currentPhases tiles = []")
  case False
  assume a: "around L tiles"
  let ?S = "set (currentPhases tiles)"
  from False have "Max ?S \<in> ?S" "Min ?S \<in> ?S" by simp_all
  with a have "Max ?S \<le> Suc L" "L \<le> Min ?S" by (auto simp: around_def)
  then have "Max ?S - Min ?S \<le> 1" by arith
  with False show ?thesis by (simp add: phaseSpread_def)
qed (simp add: phaseSpread_def)

lemma spread_around:
  assumes "phaseSpread tiles \<le> 1" "currentPhases tiles \<noteq> []"
  shows "around (Min (set (currentPhases tiles))) tiles"
  unfolding around_def
proof
  fix p assume p: "p \<in> set (currentPhases tiles)"
  let ?S = "set (currentPhases tiles)"
  from p have "Min ?S \<le> p" "p \<le> Max ?S" by simp_all
  moreover from assms have "Max ?S - Min ?S \<le> 1" by (simp add: phaseSpread_def)
  ultimately show "p = Min ?S \<or> p = Suc (Min ?S)" by arith
qed

lemma updateTilesTogether_spread:
  assumes "phaseSpread tiles \<le> 1" "cacheableTiles tiles"
  shows "phaseSpread (updateTilesTogether m tiles) \<le> 1
       \<and> cacheableTiles (updateTilesTogether m tiles)"
proof (cases "currentPhases tiles = []")
  case True
  with assms show ?thesis by (simp add: updateTilesTogether_def lowestPhase_loop_None)
next
  case False
  let ?L = "Min (set (currentPhases tiles))"
  have a: "around ?L tiles" using assms(1) False by (rule spread_around)
  show ?thesis
  proof (cases "?L < length (mgr_loadPhaseDefinitions m)")
    case True
    with False have "updateTilesTogether m tiles = updateTilesIfNeeded_loop m (Suc ?L) 0 tiles"
      by (simp add: updateTilesTogether_def lowestPhase_loop_None updateTilesIfNeeded_def)
    with updateTilesIfNeeded_loop_around [OF a assms(2), of m 0] show ?thesis
      by (auto dest: around_spread)
  next
    case no: False
    with False assms show ?thesis
      by (simp add: updateTilesTogether_def lowestPhase_loop_None)
  qed
qed

lemma updateTiles_static:
  assumes "\<not> isDynamicFrame (m_mapView m)" "phaseSpread tiles \<le> 1" "cacheableTiles tiles"
  shows "\<not> isDynamicFrame (m_mapView (fst (updateTiles m tiles)))
       \<and> phaseSpread (snd (updateTiles m tiles)) \<le> 1
       \<and> cacheableTiles (snd (updateTiles m tiles))"
  using assms updateTilesTogether_spread [OF assms(2,3), of m]
  by (simp add: updateTiles_def Let_def)

lemma deliver_same:
  "currentPhases (deliver ds tiles) = currentPhases tiles
   \<and> cacheableTiles (deliver ds tiles) = cacheableTiles tiles"
proof (induction ds tiles rule: deliver.induct)
  case (1 d ds t lo tiles)
  then show ?case by (cases lo) (simp_all add: cacheableTiles_Cons)
next
  case (2 ds x tiles)
  obtain t lo where x: "x = (t, lo)" by (cases x)
  with 2 show ?case by (cases lo) (simp_all add: cacheableTiles_Cons)
qed simp_all

lemma phaseSpread_deliver: "phaseSpread (deliver ds tiles) = phaseSpread tiles"
  by (simp add: phaseSpread_def deliver_same)

lemma frames_static:
  assumes "\<not> isDynamicFrame (m_mapView (fst s))" "phaseSpread (snd s) \<le> 1"
    "cacheableTiles (snd s)"
  shows "\<not> isDynamicFrame (m_mapView (fst (frames dss s)))
       \<and> phaseSpread (snd (frames dss s)) \<le> 1
       \<and> cacheableTiles (snd (frames dss s))"
  using assms
proof (induction dss arbitrary: s)
  case (Cons ds dss)
  have "\<not> isDynamicFrame (m_mapView (fst (updateTiles (fst s) (deliver ds (snd s)))))
       \<and> phaseSpread (snd (updateTiles (fst s) (deliver ds (snd s)))) \<le> 1
       \<and> cacheableTiles (snd (updateTiles (fst s) (deliver ds (snd s))))"
    using Cons.prems by (intro updateTiles_static) (simp_all add: phaseSpread_deliver deliver_same)
  then show ?case using Cons.IH by simp
qed simp

text \<open>
  Claim C1, as amended. In static mode, for tiles that all have cacheable data sources and
  whose phase cursors are within one phase of each other to begin with (as the cursors of
  freshly initialised loaders are): after every number of \<^verbatim>\<open>updateTiles\<close> frames, whatever the
  decoder delivers between them, the maximum \<^verbatim>\<open>currentPhase\<close> minus the minimum is at most 1.
\<close>

theorem static_phases_together:
  assumes "\<not> isDynamicFrame (m_mapView m)"
    and "cacheableTiles tiles"
    and "phaseSpread tiles \<le> 1"
  shows "phaseSpread (snd (frames dss (m, tiles))) \<le> 1"
  using frames_static [of "(m, tiles)" dss] assms by simp

theorem static_phases_together_witness:
  "phaseSpread (snd (frames [[], [None, Some ()], []]
     (newPhasedTileGeometryManager \<lparr>isDynamicFrame = False, updateRequests = 0\<rparr>,
      [(\<lparr>decodedTile = Some (), disposed = False, isVisible = True, hasGeometry = False,
         cacheable = True, calls = []\<rparr>,
        Some (newPhasedTileGeometryLoader DefaultPhases DefaultBasicGeometryKinds)),
       (\<lparr>decodedTile = None, disposed = False, isVisible = True, hasGeometry = False,
         cacheable = True, calls = []\<rparr>,
        Some (newPhasedTileGeometryLoader DefaultPhases DefaultBasicGeometryKinds))]))) \<le> 1"
proof -
  let ?m = "newPhasedTileGeometryManager \<lparr>isDynamicFrame = False, updateRequests = 0\<rparr>"
  let ?tiles = "[(\<lparr>decodedTile = Some (), disposed = False, isVisible = True, hasGeometry = False,
         cacheable = True, calls = []\<rparr>,
        Some (newPhasedTileGeometryLoader DefaultPhases DefaultBasicGeometryKinds)),
       (\<lparr>decodedTile = None, disposed = False, isVisible = True, hasGeometry = False,
         cacheable = True, calls = []\<rparr>,
        Some (newPhasedTileGeometryLoader DefaultPhases DefaultBasicGeometryKinds))]"
  have a: "\<not> isDynamicFrame (m_mapView ?m)" by (simp add: newPhasedTileGeometryManager_def)
  have b: "cacheableTiles ?tiles"
    by (simp add: cacheableTiles_def newPhasedTileGeometryLoader_def currentPhase_def)
  have c: "phaseSpread ?tiles \<le> 1"
    by (simp add: phaseSpread_def newPhasedTileGeometryLoader_def currentPhase_def)
  show ?thesis by (rule static_phases_together [OF a b c])
qed

text \<open>
  Claim C1 as stated fails when the tiles mix data sources: the loader of a non-cacheable tile
  jumps to the last phase in its first \<^verbatim>\<open>update()\<close>, while a cacheable tile advances by one
  phase. With the default five phases the cursors are 5 and 1 after the first static frame.
\<close>

theorem static_phases_together_counterexample:
  "\<not> phaseSpread (snd (frames [[]]
     (newPhasedTileGeometryManager \<lparr>isDynamicFrame = False, updateRequests = 0\<rparr>,
      [(\<lparr>decodedTile = Some (), disposed = False, isVisible = True, hasGeometry = False,
         cacheable = False, calls = []\<rparr>,
        Some (newPhasedTileGeometryLoader DefaultPhases DefaultBasicGeometryKinds)),
       (\<lparr>decodedTile = Some (), disposed = False, isVisible = True, hasGeometry = False,
         cacheable = True, calls = []\<rparr>,
        Some (newPhasedTileGeometryLoader DefaultPhases DefaultBasicGeometryKinds))]))) \<le> 1"
  by code_simp

lemma static_phases_example:
  "currentPhases (snd (frames [[]]
     (newPhasedTileGeometryManager \<lparr>isDynamicFrame = False, updateRequests = 0\<rparr>,
      [(\<lparr>decodedTile = Some (), disposed = False, isVisible = True, hasGeometry = False,
         cacheable = False, calls = []\<rparr>,
        Some (newPhasedTileGeometryLoader DefaultPhases DefaultBasicGeometryKinds)),
       (\<lparr>decodedTile = Some (), disposed = False, isVisible = True, hasGeometry = False,
         cacheable = True, calls = []\<rparr>,
        Some (newPhasedTileGeometryLoader DefaultPhases DefaultBasicGeometryKinds))]))) = [5, 1]"
  by code_simp

section \<open>Properties of the simple loader\<close>

text \<open>
  Claim C9, as amended. \<^verbatim>\<open>update()\<close> that captures a DecodedTile builds nothing itself: it
  finishes the loader, releases the tile's DecodedTile and, unless the tile is disposed or
  invisible at that moment, schedules the build. When the scheduled step runs on a tile that
  is no longer visible, it evicts the tile from the visible tile set and builds nothing,
  leaving the loader and the rest of the tile as they are; on a visible tile it builds all
  geometry.
\<close>

theorem simple_deferred_build:
  "(m_decodedTile_simple l = None \<and> decodedTile t = Some d \<longrightarrow>
      update_simple (l, t, q) =
        (l\<lparr>m_isFinished_simple := True\<rparr>, removeDecodedTile t,
         if disposed t \<or> \<not> isVisible t then q else q @ [d]))
   \<and> (\<not> isVisible t \<longrightarrow> deferred d (l, t, q) = (l, external DisposeTile t, q))
   \<and> (isVisible t \<longrightarrow> deferred d (l, t, q) =
        (l\<lparr>m_isFinished_simple := True\<rparr>,
         external RequestUpdate (removeDecodedTile (external CreateAllGeometries t)), q))"
  by (simp add: update_simple_def setDecodedTile_simple_def prepareForRender_def
      finish_simple_def deferred_def Let_def)

theorem simple_deferred_build_witness:
  "happenings [Update_simple, SetVisible False, RunTimeout]
     (newSimpleTileGeometryLoader,
      \<lparr>decodedTile = Some (), disposed = False, isVisible = True, hasGeometry = False,
       cacheable = True, calls = []\<rparr>, [])
   = (\<lparr>m_decodedTile_simple = None, m_isFinished_simple = True\<rparr>,
      \<lparr>decodedTile = None, disposed = False, isVisible = False, hasGeometry = False,
       cacheable = True, calls = [DisposeTile]\<rparr>, [])"
proof -
  let ?t = "\<lparr>decodedTile = Some (), disposed = False, isVisible = True, hasGeometry = False,
       cacheable = True, calls = []\<rparr>"
  let ?l = "newSimpleTileGeometryLoader :: unit SimpleTileGeometryLoader"
  let ?l' = "?l\<lparr>m_isFinished_simple := True\<rparr>"
  have u: "update_simple (?l, ?t, []) = (?l', removeDecodedTile ?t, [()])"
    using simple_deferred_build [of ?l ?t "()" "[]", THEN conjunct1]
    by (simp add: newSimpleTileGeometryLoader_def)
  have r: "deferred () (?l', (removeDecodedTile ?t)\<lparr>isVisible := False\<rparr>, [])
      = (?l', external DisposeTile ((removeDecodedTile ?t)\<lparr>isVisible := False\<rparr>), [])"
    using simple_deferred_build [of ?l' "(removeDecodedTile ?t)\<lparr>isVisible := False\<rparr>" "()" "[]",
        THEN conjunct2, THEN conjunct1]
    by (simp add: removeDecodedTile_def)
  show ?thesis
    by (simp add: u r runTimeout_def)
       (simp add: newSimpleTileGeometryLoader_def removeDecodedTile_def external_def)
qed

text \<open>
  Claim C9 as stated fails: the scheduled step reads \<^verbatim>\<open>tile.isVisible\<close> only. A tile that is
  disposed after the step was scheduled, and still visible, gets its geometry built.
\<close>

theorem simple_deferred_build_counterexample:
  "\<not> (disposed (fst (snd (happenings [Update_simple, DisposeTheTile, RunTimeout]
          (newSimpleTileGeometryLoader,
           \<lparr>decodedTile = Some (), disposed = False, isVisible = True, hasGeometry = False,
            cacheable = True, calls = []\<rparr>, []))))
       \<longrightarrow> CreateAllGeometries \<notin> set (calls (fst (snd
          (happenings [Update_simple, DisposeTheTile, RunTimeout]
          (newSimpleTileGeometryLoader,
           \<lparr>decodedTile = Some (), disposed = False, isVisible = True, hasGeometry = False,
            cacheable = True, calls = []\<rparr>, []))))))"
  by code_simp

text \<open>
  Claim C10. The three getters of the simple loader return the same flag, and the
  \<^verbatim>\<open>update()\<close> that observes the tile's DecodedTile sets it before it returns: no backend call
  has been made yet, and on a visible, undisposed tile the build is still pending.
\<close>

theorem simple_flags:
  "basicGeometryLoaded_simple l = isFinished_simple l
   \<and> allGeometryLoaded_simple l = isFinished_simple l
   \<and> (m_decodedTile_simple l = None \<and> decodedTile t = Some d \<longrightarrow>
        isFinished_simple (fst (update_simple (l, t, q)))
        \<and> basicGeometryLoaded_simple (fst (update_simple (l, t, q)))
        \<and> allGeometryLoaded_simple (fst (update_simple (l, t, q)))
        \<and> calls (fst (snd (update_simple (l, t, q)))) = calls t
        \<and> (\<not> disposed t \<and> isVisible t \<longrightarrow> snd (snd (update_simple (l, t, q))) = q @ [d]))"
  by (simp add: update_simple_def setDecodedTile_simple_def prepareForRender_def
      finish_simple_def basicGeometryLoaded_simple_def allGeometryLoaded_simple_def
      isFinished_simple_def removeDecodedTile_def)

theorem simple_flags_witness:
  "isFinished_simple (fst (update_simple (newSimpleTileGeometryLoader,
      \<lparr>decodedTile = Some (), disposed = False, isVisible = True, hasGeometry = False,
       cacheable = True, calls = []\<rparr>, [])))
   \<and> snd (snd (update_simple (newSimpleTileGeometryLoader,
      \<lparr>decodedTile = Some (), disposed = False, isVisible = True, hasGeometry = False,
       cacheable = True, calls = []\<rparr>, []))) = [()]"
  using simple_flags [of "newSimpleTileGeometryLoader"
      "\<lparr>decodedTile = Some (), disposed = False, isVisible = True, hasGeometry = False,
       cacheable = True, calls = []\<rparr>" "()" "[]"]
  by (simp add: newSimpleTileGeometryLoader_def)

section \<open>Properties of the interpolated properties\<close>










lemma findIndex_bounds: "- 1 \<le> findIndex f xs \<and> findIndex f xs < int (length xs)"
  by (induction xs) (auto simp: Let_def)







lemma toInt32_small: "0 \<le> v \<Longrightarrow> v < 2 ^ 24 \<Longrightarrow> toInt32 v = v"
  unfolding toInt32_def by (intro signed_take_bit_int_eq_self) simp_all


















text \<open>
  Claim C7. The duplicates are not collapsed as the claim says: with zoom levels 1, 2, 2 and
  values 10, 20, 30 the loop removes the zoom level before the duplicate and the value two
  places before it, so the result pairs zoom level 1 with 20 and zoom level 2 with 30, where
  the first occurrences had 10 and 20.
\<close>

theorem duplicates_misaligned:
  "createInterpolatedProperty
     \<lparr>interpolation = None, zoomLevels = [1, 2, 2], values' = [JNum 10, JNum 20, JNum 30]\<rparr>
   = Some (\<lparr>interpolation = None, zoomLevels = [1, 2], values' = [JNum 20, JNum 30]\<rparr>,
           Inr \<lparr>interpolationMode = Discrete, ip_zoomLevels = [Num 1, Num 2],
                ip_values = [Num 20, Num 30]\<rparr>)"
  by (simp add: createInterpolatedProperty_def removeDuplicatePropertyValues_def
      removeDuplicatePropertyValues_loop.simps elemAt_def splice1_def sample_def)

lemma duplicates_lost:
  "createInterpolatedProperty
     \<lparr>interpolation = None, zoomLevels = [1, 2, 1], values' = [JNum 10, JNum 20, JNum 30]\<rparr>
   = Some (\<lparr>interpolation = None, zoomLevels = [1], values' = [JNum 20]\<rparr>,
           Inr \<lparr>interpolationMode = Discrete, ip_zoomLevels = [Num 1],
                ip_values = [Num 20]\<rparr>)"
  by (simp add: createInterpolatedProperty_def removeDuplicatePropertyValues_def
      removeDuplicatePropertyValues_loop.simps elemAt_def splice1_def sample_def)

section \<open>Properties of the style set evaluator\<close>

definition attrOnly :: "'env StyleFields \<Rightarrow> 'env StyleFields \<Rightarrow> bool" where
  "attrOnly f f1 \<longleftrightarrow> f1 = f\<lparr>attr := attr f1\<rparr>"

lemma attrOnly_refl [simp]: "attrOnly f f"
  by (simp add: attrOnly_def)

lemma attrOnly_trans: "attrOnly f g \<Longrightarrow> attrOnly g h \<Longrightarrow> attrOnly f h"
  by (auto simp: attrOnly_def) (metis StyleFields.surjective StyleFields.update_convs(10))

lemma attrOnly_fields:
  assumes "attrOnly f f1"
  shows "when' f1 = when' f" "p_whenExpr f1 = p_whenExpr f" "p_index f1 = p_index f"
    "technique f1 = technique f" "final f1 = final f"
  using assms unfolding attrOnly_def
  by (metis StyleFields.select_convs StyleFields.surjective StyleFields.update_convs(10))+


lemma evaluateWhen_again:
  assumes "evaluateWhen parse env f = Inr (f1, holds)"
  shows "p_index f1 = p_index f" "technique f1 = technique f" "attr f1 = attr f"
    "final f1 = final f"
    and "\<And>g. when' g = when' f1 \<Longrightarrow> p_whenExpr g = p_whenExpr f1 \<Longrightarrow>
           evaluateWhen parse env g = Inr (g, holds)"
proof -
  from assms show "p_index f1 = p_index f" "technique f1 = technique f" "attr f1 = attr f"
    "final f1 = final f"
    by (auto simp: evaluateWhen_def split: option.splits)
  fix g :: "'a StyleFields" assume gf: "when' g = when' f1" "p_whenExpr g = p_whenExpr f1"
  from assms show "evaluateWhen parse env g = Inr (g, holds)"
    by (auto simp: evaluateWhen_def gf split: option.splits)
qed

lemma addAttributes_attrOnly:
  "addAttributes f t = Inr (f1, t1) \<Longrightarrow> attrOnly f f1"
  by (auto simp: addAttributes_def Let_def attrOnly_def split: option.splits sum.splits)

lemma addStackAttributes_attrOnly:
  "addStackAttributes st t = Inr (st1, t1) \<Longrightarrow> list_all2 attrOnly st st1"
proof (induction st arbitrary: t st1 t1)
  case (Cons f st)
  then show ?case
    by (auto split: sum.splits dest: addAttributes_attrOnly)
qed simp

lemma list_all2_attrOnly_refl [simp]: "list_all2 attrOnly st st"
  by (simp add: list_all2_refl)

lemma list_all2_attrOnly_trans:
  "list_all2 attrOnly a b \<Longrightarrow> list_all2 attrOnly b c \<Longrightarrow> list_all2 attrOnly a c"
  by (rule list_all2_trans [of attrOnly attrOnly attrOnly]) (auto intro: attrOnly_trans)

text \<open>What one run of a step leaves behind, and what a later run of it does.\<close>

definition grows :: "'env walk \<Rightarrow> 'env walk \<Rightarrow> nat option list \<Rightarrow> bool" where
  "grows w w1 new \<longleftrightarrow>
     result w1 = result w @ new
     \<and> prefix (m_techniques (evaluator w)) (m_techniques (evaluator w1))
     \<and> list_all2 attrOnly (styleStack w) (styleStack w1)
     \<and> None \<notin> set new"

lemma grows_refl [simp]: "grows w w []"
  by (simp add: grows_def)

lemma grows_trans: "grows w w1 a \<Longrightarrow> grows w1 w2 b \<Longrightarrow> grows w w2 (a @ b)"
  by (auto simp: grows_def dest: list_all2_attrOnly_trans)

lemma processLeaf_again:
  assumes run: "processLeaf w f = Inr (found, w1, f1)"
    and ok: "\<And>i. p_index f = Some i \<Longrightarrow> i < length (m_techniques (evaluator w))"
  shows "\<exists>new. grows w w1 new
      \<and> (\<forall>i. p_index f1 = Some i \<longrightarrow> i < length (m_techniques (evaluator w1)))
      \<and> (\<forall>w'. prefix (m_techniques (evaluator w1)) (m_techniques (evaluator w')) \<longrightarrow>
            processLeaf w' f1 = Inr (found, w'\<lparr>result := result w' @ new\<rparr>, f1))"
proof (cases "technique f")
  case None
  with run have "w1 = w" "f1 = f" "\<not> found" by (simp_all add: processLeaf_def)
  with None ok show ?thesis
    by (intro exI [of _ "[]"]) (simp add: processLeaf_def)
next
  case (Some name)
  show ?thesis
  proof (cases "p_index f")
    case (Some index)
    let ?mt = "m_techniques (evaluator w)"
    from ok Some have lt: "index < length ?mt" by simp
    from run Some \<open>technique f = Some name\<close> lt
    have r: "w1 = w\<lparr>result := result w @ [Some (?mt ! index)]\<rparr>" "f1 = f"
      "found = (final f = Some True)"
      by (auto simp add: processLeaf_def)
    have "processLeaf w' f = Inr (found, w'\<lparr>result := result w' @ [Some (?mt ! index)]\<rparr>, f)"
      if "prefix ?mt (m_techniques (evaluator w'))" for w'
    proof -
      from that lt have "index < length (m_techniques (evaluator w'))"
        "m_techniques (evaluator w') ! index = ?mt ! index"
        by (auto simp: prefix_def nth_append)
      with Some \<open>technique f = Some name\<close> r(3) show ?thesis
        by (simp add: processLeaf_def)
    qed
    with r lt Some show ?thesis
      by (intro exI [of _ "[Some (?mt ! index)]"]) (simp add: grows_def)
  next
    case None
    let ?ev = "evaluator w"
    from run None \<open>technique f = Some name\<close>
    obtain stack1 t1 style1 t2 where
      st: "addStackAttributes (styleStack w) [(''name'', TVal (JStr name))] = Inr (stack1, t1)"
      and at: "addAttributes f t1 = Inr (style1, t2)"
      by (auto simp: processLeaf_def split: sum.splits)
    let ?a = "length (heap ?ev)"
    let ?n = "length (m_techniques ?ev)"
    from addAttributes_attrOnly [OF at] None have pi: "p_index style1 = None"
      by (simp add: attrOnly_fields)
    define f2 where "f2 = style1\<lparr>p_index := Some ?n\<rparr>"
    from run None \<open>technique f = Some name\<close> st at pi
    have r: "f1 = f2" "found = (final f2 = Some True)"
      "result w1 = result w @ [Some ?a]" "styleStack w1 = stack1"
      "m_techniques (evaluator w1) = m_techniques ?ev @ [?a]"
      by (auto simp add: processLeaf_def checkAddTechnique_def Let_def f2_def)
    have tf: "technique f2 = Some name"
      using addAttributes_attrOnly [OF at] \<open>technique f = Some name\<close>
      by (simp add: f2_def attrOnly_fields)
    have "processLeaf w' f2 = Inr (found, w'\<lparr>result := result w' @ [Some ?a]\<rparr>, f2)"
      if "prefix (m_techniques (evaluator w1)) (m_techniques (evaluator w'))" for w'
    proof -
      from that r(5) have "?n < length (m_techniques (evaluator w'))"
        "m_techniques (evaluator w') ! ?n = ?a"
        by (auto simp: prefix_def nth_append)
      with tf r(2) show ?thesis
        by (simp add: processLeaf_def f2_def)
    qed
    moreover have "grows w w1 [Some ?a]"
      using r addStackAttributes_attrOnly [OF st] by (simp add: grows_def)
    moreover have "\<forall>i. p_index f1 = Some i \<longrightarrow> i < length (m_techniques (evaluator w1))"
      using r by (simp add: f2_def)
    ultimately show ?thesis using r(1) by blast
  qed
qed


lemma processLeaf_when:
  assumes "processLeaf w f = Inr (found, w1, f1)"
  shows "when' f1 = when' f \<and> p_whenExpr f1 = p_whenExpr f"
proof (cases "technique f")
  case None
  with assms show ?thesis by (simp add: processLeaf_def)
next
  case (Some name)
  show ?thesis
  proof (cases "p_index f")
    case i: (Some index)
    with assms Some show ?thesis by (simp add: processLeaf_def)
  next
    case None
    from assms None Some
    obtain stack1 t1 style1 t2 where
      st: "addStackAttributes (styleStack w) [(''name'', TVal (JStr name))] = Inr (stack1, t1)"
      and at: "addAttributes f t1 = Inr (style1, t2)"
      by (auto simp: processLeaf_def split: sum.splits)
    from addAttributes_attrOnly [OF at] None have pi: "p_index style1 = None"
      by (simp add: attrOnly_fields)
    from assms None Some st at pi
    have f1: "f1 = style1\<lparr>p_index := Some (length (m_techniques (evaluator w)))\<rparr>"
      by (auto simp add: processLeaf_def checkAddTechnique_def Let_def)
    from addAttributes_attrOnly [OF at] f1 show ?thesis
      by (simp add: attrOnly_fields)
  qed
qed

lemma indexed_mono:
  fixes s :: "'env Style" and ss :: "'env Style list"
  shows "indexed n s \<Longrightarrow> n \<le> m \<Longrightarrow> indexed m s"
    and "indexeds n ss \<Longrightarrow> n \<le> m \<Longrightarrow> indexeds m ss"
  by (induction n s and n ss rule: indexed_indexeds.induct)
     (auto split: option.splits)

lemma grows_length:
  "grows w w1 new \<Longrightarrow> length (m_techniques (evaluator w)) \<le> length (m_techniques (evaluator w1))"
  by (auto simp: grows_def prefix_def)

definition again_style ::
  "(string \<Rightarrow> 'env Expr option) \<Rightarrow> 'env \<Rightarrow> 'env walk \<Rightarrow> 'env Style \<Rightarrow> bool" where
  "again_style parse env w s \<longleftrightarrow>
     (\<forall>found w1 s1.
        processStyle parse env w s = Inr (found, w1, s1) \<longrightarrow>
        indexed (length (m_techniques (evaluator w))) s \<longrightarrow>
        (\<exists>new. grows w w1 new \<and> indexed (length (m_techniques (evaluator w1))) s1
           \<and> (\<forall>w'. prefix (m_techniques (evaluator w1)) (m_techniques (evaluator w')) \<longrightarrow>
                 processStyle parse env w' s1
                   = Inr (found, w'\<lparr>result := result w' @ new\<rparr>, s1))))"

definition again_styles ::
  "(string \<Rightarrow> 'env Expr option) \<Rightarrow> 'env \<Rightarrow> 'env walk \<Rightarrow> 'env Style list \<Rightarrow> bool" where
  "again_styles parse env w ss \<longleftrightarrow>
     (\<forall>found w1 ss1.
        processStyles parse env w ss = Inr (found, w1, ss1) \<longrightarrow>
        indexeds (length (m_techniques (evaluator w))) ss \<longrightarrow>
        (\<exists>new. grows w w1 new \<and> indexeds (length (m_techniques (evaluator w1))) ss1
           \<and> (\<forall>w'. prefix (m_techniques (evaluator w1)) (m_techniques (evaluator w')) \<longrightarrow>
                 processStyles parse env w' ss1
                   = Inr (found, w'\<lparr>result := result w' @ new\<rparr>, ss1))))"

lemma again_leaf:
  assumes ev: "evaluateWhen parse env style = Inr (style1, True)"
  shows "again_style parse env w (Style style None)"
  unfolding again_style_def
proof (intro allI impI)
  fix found w1 s1
  assume run: "processStyle parse env w (Style style None) = Inr (found, w1, s1)"
    and ok: "indexed (length (m_techniques (evaluator w))) (Style style None)"
  from run ev obtain f1 where pl: "processLeaf w style1 = Inr (found, w1, f1)"
    and s1: "s1 = Style f1 None"
    by (auto split: sum.splits)
  note ea = evaluateWhen_again [OF ev]
  from ok ea(1) have "\<And>i. p_index style1 = Some i \<Longrightarrow> i < length (m_techniques (evaluator w))"
    by simp
  from processLeaf_again [OF pl this] obtain new where new: "grows w w1 new"
    "\<forall>i. p_index f1 = Some i \<longrightarrow> i < length (m_techniques (evaluator w1))"
    "\<forall>w'. prefix (m_techniques (evaluator w1)) (m_techniques (evaluator w')) \<longrightarrow>
            processLeaf w' f1 = Inr (found, w'\<lparr>result := result w' @ new\<rparr>, f1)"
    by blast
  note pw = processLeaf_when [OF pl]
  have "processStyle parse env w' s1 = Inr (found, w'\<lparr>result := result w' @ new\<rparr>, s1)"
    if "prefix (m_techniques (evaluator w1)) (m_techniques (evaluator w'))" for w'
  proof -
    from pw have "evaluateWhen parse env f1 = Inr (f1, True)" by (intro ea(5)) simp_all
    with new(3) that show ?thesis by (simp add: s1)
  qed
  with new(1,2) show "\<exists>new. grows w w1 new \<and> indexed (length (m_techniques (evaluator w1))) s1
           \<and> (\<forall>w'. prefix (m_techniques (evaluator w1)) (m_techniques (evaluator w')) \<longrightarrow>
                 processStyle parse env w' s1
                   = Inr (found, w'\<lparr>result := result w' @ new\<rparr>, s1))"
    by (auto simp: s1 split: option.splits)
qed


lemma walk_result_id [simp]: "w\<lparr>result := result w @ []\<rparr> = w" for w :: "'env walk"
  by simp

lemma again_unmatched:
  assumes ev: "evaluateWhen parse env style = Inr (style1, False)"
  shows "again_style parse env w (Style style sub)"
  unfolding again_style_def
proof (intro allI impI)
  fix found w1 s1
  assume run: "processStyle parse env w (Style style sub) = Inr (found, w1, s1)"
    and ok: "indexed (length (m_techniques (evaluator w))) (Style style sub)"
  note ea = evaluateWhen_again [OF ev]
  from run ev have r: "found = False" "w1 = w" "s1 = Style style1 sub" by simp_all
  have "evaluateWhen parse env style1 = Inr (style1, False)" by (intro ea(5)) simp_all
  then have "processStyle parse env w' s1 = Inr (found, w'\<lparr>result := result w' @ []\<rparr>, s1)"
    for w' by (simp add: r)
  moreover from ok ea(1) have "indexed (length (m_techniques (evaluator w1))) s1"
    by (simp add: r)
  ultimately show "\<exists>new. grows w w1 new \<and> indexed (length (m_techniques (evaluator w1))) s1
           \<and> (\<forall>w'. prefix (m_techniques (evaluator w1)) (m_techniques (evaluator w')) \<longrightarrow>
                 processStyle parse env w' s1
                   = Inr (found, w'\<lparr>result := result w' @ new\<rparr>, s1))"
    using r(2) by (intro exI [of _ "[]"]) simp
qed

lemma again_group:
  assumes ev: "evaluateWhen parse env style = Inr (style1, True)"
    and ih: "again_styles parse env (w\<lparr>styleStack := styleStack w @ [style1]\<rparr>) children"
  shows "again_style parse env w (Style style (Some children))"
  unfolding again_style_def
proof (intro allI impI)
  fix found w1 s1
  assume run: "processStyle parse env w (Style style (Some children)) = Inr (found, w1, s1)"
    and ok: "indexed (length (m_techniques (evaluator w))) (Style style (Some children))"
  let ?w = "w\<lparr>styleStack := styleStack w @ [style1]\<rparr>"
  note ea = evaluateWhen_again [OF ev]
  from run ev obtain wc children1 where
    pc: "processStyles parse env ?w children = Inr (found, wc, children1)"
    and w1: "w1 = wc\<lparr>styleStack := butlast (styleStack wc)\<rparr>"
    and s1: "s1 = Style (last (styleStack wc)) (Some children1)"
    by (auto split: sum.splits)
  from ok have okc: "indexeds (length (m_techniques (evaluator ?w))) children" by simp
  from ih [unfolded again_styles_def, rule_format, OF pc okc] obtain new where
    g: "grows ?w wc new" and ix: "indexeds (length (m_techniques (evaluator wc))) children1"
    and again: "\<And>w'. prefix (m_techniques (evaluator wc)) (m_techniques (evaluator w')) \<Longrightarrow>
        processStyles parse env w' children1
          = Inr (found, w'\<lparr>result := result w' @ new\<rparr>, children1)"
    by blast
  from g have "list_all2 attrOnly (styleStack w @ [style1]) (styleStack wc)"
    by (simp add: grows_def)
  then obtain stack1 f1 where sw: "styleStack wc = stack1 @ [f1]"
    and st: "list_all2 attrOnly (styleStack w) stack1" and ao: "attrOnly style1 f1"
    by (auto simp: list_all2_append1 list_all2_Cons1)
  have g1: "grows w w1 new"
    using g st by (simp add: grows_def w1 sw)
  have ix1: "indexed (length (m_techniques (evaluator w1))) s1"
  proof -
    from ok ea(1) attrOnly_fields(3) [OF ao]
    have "case p_index f1 of None \<Rightarrow> True | Some i \<Rightarrow> i < length (m_techniques (evaluator w))"
      by simp
    with grows_length [OF g1] have
      "case p_index f1 of None \<Rightarrow> True | Some i \<Rightarrow> i < length (m_techniques (evaluator w1))"
      by (auto split: option.splits)
    moreover have "evaluator w1 = evaluator wc" by (simp add: w1)
    ultimately show ?thesis using ix by (auto simp: s1 sw split: option.splits)
  qed
  have "processStyle parse env w' s1 = Inr (found, w'\<lparr>result := result w' @ new\<rparr>, s1)"
    if p: "prefix (m_techniques (evaluator w1)) (m_techniques (evaluator w'))" for w'
  proof -
    have e: "evaluateWhen parse env f1 = Inr (f1, True)"
      using attrOnly_fields(1,2) [OF ao] by (intro ea(5)) simp_all
    let ?w' = "w'\<lparr>styleStack := styleStack w' @ [f1]\<rparr>"
    from p have "prefix (m_techniques (evaluator wc)) (m_techniques (evaluator ?w'))"
      by (simp add: w1)
    from again [OF this] e show ?thesis by (simp add: s1 sw)
  qed
  with g1 ix1 show "\<exists>new. grows w w1 new \<and> indexed (length (m_techniques (evaluator w1))) s1
           \<and> (\<forall>w'. prefix (m_techniques (evaluator w1)) (m_techniques (evaluator w')) \<longrightarrow>
                 processStyle parse env w' s1
                   = Inr (found, w'\<lparr>result := result w' @ new\<rparr>, s1))"
    by blast
qed

lemma again_nil: "again_styles parse env w []"
  unfolding again_styles_def by (auto intro!: exI [of _ "[]"])

lemma again_cons:
  assumes c: "again_style parse env w c"
    and r: "\<And>w1 c1. processStyle parse env w c = Inr (False, w1, c1) \<Longrightarrow>
              again_styles parse env w1 rest"
  shows "again_styles parse env w (c # rest)"
  unfolding again_styles_def
proof (intro allI impI)
  fix found w2 ss1
  assume run: "processStyles parse env w (c # rest) = Inr (found, w2, ss1)"
    and ok: "indexeds (length (m_techniques (evaluator w))) (c # rest)"
  from run obtain f1 w1 c1 where pc: "processStyle parse env w c = Inr (f1, w1, c1)"
    by (auto split: sum.splits)
  from ok have okc: "indexed (length (m_techniques (evaluator w))) c"
    and okr: "indexeds (length (m_techniques (evaluator w))) rest" by simp_all
  from c [unfolded again_style_def, rule_format, OF pc okc] obtain new where
    g: "grows w w1 new" and ix: "indexed (length (m_techniques (evaluator w1))) c1"
    and again: "\<And>w'. prefix (m_techniques (evaluator w1)) (m_techniques (evaluator w')) \<Longrightarrow>
        processStyle parse env w' c1 = Inr (f1, w'\<lparr>result := result w' @ new\<rparr>, c1)"
    by blast
  note okr1 = indexed_mono(2) [OF okr grows_length [OF g]]
  show "\<exists>new. grows w w2 new \<and> indexeds (length (m_techniques (evaluator w2))) ss1
           \<and> (\<forall>w'. prefix (m_techniques (evaluator w2)) (m_techniques (evaluator w')) \<longrightarrow>
                 processStyles parse env w' ss1
                   = Inr (found, w'\<lparr>result := result w' @ new\<rparr>, ss1))"
  proof (cases f1)
    case True
    with run pc have e: "found = True" "w2 = w1" "ss1 = c1 # rest" by simp_all
    have "processStyles parse env w' ss1 = Inr (found, w'\<lparr>result := result w' @ new\<rparr>, ss1)"
      if "prefix (m_techniques (evaluator w2)) (m_techniques (evaluator w'))" for w'
      using again [of w'] that True by (simp add: e)
    with g ix okr1 show ?thesis unfolding e by (intro exI [of _ new]) simp
  next
    case False
    with run pc obtain rest1 where
      pr: "processStyles parse env w1 rest = Inr (found, w2, rest1)"
      and ss1: "ss1 = c1 # rest1"
      by (auto split: sum.splits)
    from pc False have "processStyle parse env w c = Inr (False, w1, c1)" by simp
    from r [OF this, unfolded again_styles_def, rule_format, OF pr okr1] obtain new2 where
      g2: "grows w1 w2 new2" and ix2: "indexeds (length (m_techniques (evaluator w2))) rest1"
      and again2: "\<And>w'. prefix (m_techniques (evaluator w2)) (m_techniques (evaluator w')) \<Longrightarrow>
        processStyles parse env w' rest1
          = Inr (found, w'\<lparr>result := result w' @ new2\<rparr>, rest1)"
      by blast
    have "processStyles parse env w' ss1
        = Inr (found, w'\<lparr>result := result w' @ (new @ new2)\<rparr>, ss1)"
      if p: "prefix (m_techniques (evaluator w2)) (m_techniques (evaluator w'))" for w'
    proof -
      from g2 p have p1: "prefix (m_techniques (evaluator w1)) (m_techniques (evaluator w'))"
        by (auto simp: grows_def)
      let ?w' = "w'\<lparr>result := result w' @ new\<rparr>"
      from p have "prefix (m_techniques (evaluator w2)) (m_techniques (evaluator ?w'))" by simp
      from again [OF p1] again2 [OF this] False show ?thesis by (simp add: ss1)
    qed
    moreover have "indexeds (length (m_techniques (evaluator w2))) ss1"
      using ix2 indexed_mono(1) [OF ix grows_length [OF g2]] by (simp add: ss1)
    ultimately show ?thesis using grows_trans [OF g g2] by blast
  qed
qed

lemma again_all:
  fixes w :: "'env walk"
  shows "again_style parse env w s" and "again_styles parse env w ss"
proof (induction parse env w s and parse env w ss rule: processStyle_processStyles.induct)
  case (1 parse env w style sub)
  show ?case
  proof (cases "evaluateWhen parse env style")
    case (Inl e)
    then show ?thesis by (simp add: again_style_def)
  next
    case (Inr b)
    obtain style1 holds where b: "b = (style1, holds)" by (cases b)
    show ?thesis
    proof (cases holds)
      case False
      with Inr b show ?thesis by (intro again_unmatched [of _ _ _ style1]) simp
    next
      case True
      show ?thesis
      proof (cases sub)
        case None
        with Inr b True show ?thesis by (simp add: again_leaf [of _ _ _ style1])
      next
        case (Some children)
        have "again_styles parse env (w\<lparr>styleStack := styleStack w @ [style1]\<rparr>) children"
          using Inr b True Some by (intro "1.IH") simp_all
        with Inr b True Some show ?thesis by (simp add: again_group [of _ _ _ style1])
      qed
    qed
  qed
next
  case (2 parse env w)
  show ?case by (rule again_nil)
next
  case (3 parse env w currStyle rest)
  show ?case
  proof (rule again_cons)
    show "again_style parse env w currStyle" by (rule "3.IH"(1))
    fix w1 c1 assume "processStyle parse env w currStyle = Inr (False, w1, c1)"
    then show "again_styles parse env w1 rest"
      using "3.IH"(2) [of "(False, w1, c1)" False "(w1, c1)" w1 c1] by simp
  qed
qed

lemma matchingLoop_again:
  assumes "matchingLoop parse env v w ss = Inr (w1, ss1)"
    and "indexeds (length (m_techniques (evaluator w))) ss"
    and "styleStack w = []"
  shows "\<exists>new. grows w w1 new \<and> indexeds (length (m_techniques (evaluator w1))) ss1
     \<and> (\<forall>w' v'. prefix (m_techniques (evaluator w1)) (m_techniques (evaluator w'))
            \<and> styleStack w' = [] \<longrightarrow>
          matchingLoop parse env v' w' ss1 = Inr (w'\<lparr>result := result w' @ new\<rparr>, ss1))"
  using assms
proof (induction ss arbitrary: w w1 ss1)
  case Nil
  then show ?case by (intro exI [of _ "[]"]) auto
next
  case (Cons c rest)
  from Cons.prems(1,3) obtain f1 wc c1 where pc: "processStyle parse env w c = Inr (f1, wc, c1)"
    by (auto split: sum.splits if_splits)
  from Cons.prems(2) have okc: "indexed (length (m_techniques (evaluator w))) c"
    and okr: "indexeds (length (m_techniques (evaluator w))) rest" by simp_all
  from again_all(1) [of parse env w c, unfolded again_style_def, rule_format, OF pc okc]
  obtain new where
    g: "grows w wc new" and ix: "indexed (length (m_techniques (evaluator wc))) c1"
    and again: "\<And>w'. prefix (m_techniques (evaluator wc)) (m_techniques (evaluator w')) \<Longrightarrow>
        processStyle parse env w' c1 = Inr (f1, w'\<lparr>result := result w' @ new\<rparr>, c1)"
    by blast
  from g Cons.prems(3) have sc: "styleStack wc = []" by (simp add: grows_def)
  note okr1 = indexed_mono(2) [OF okr grows_length [OF g]]
  show ?case
  proof (cases f1)
    case True
    with Cons.prems(1,3) pc have e: "w1 = wc" "ss1 = c1 # rest" by simp_all
    have "matchingLoop parse env v' w' ss1 = Inr (w'\<lparr>result := result w' @ new\<rparr>, ss1)"
      if "prefix (m_techniques (evaluator w1)) (m_techniques (evaluator w'))"
        "styleStack w' = []" for w' v'
      using again [of w'] that True by (simp add: e)
    with g ix okr1 show ?thesis unfolding e by (intro exI [of _ new]) simp
  next
    case False
    with Cons.prems(1,3) pc obtain rest1 where
      pr: "matchingLoop parse env v wc rest = Inr (w1, rest1)" and ss1: "ss1 = c1 # rest1"
      by (auto split: sum.splits)
    from Cons.IH [OF pr okr1 sc] obtain new2 where
      g2: "grows wc w1 new2" and ix2: "indexeds (length (m_techniques (evaluator w1))) rest1"
      and again2: "\<And>w' v'. prefix (m_techniques (evaluator w1)) (m_techniques (evaluator w'))
            \<Longrightarrow> styleStack w' = [] \<Longrightarrow>
          matchingLoop parse env v' w' rest1 = Inr (w'\<lparr>result := result w' @ new2\<rparr>, rest1)"
      by blast
    have "matchingLoop parse env v' w' ss1
        = Inr (w'\<lparr>result := result w' @ (new @ new2)\<rparr>, ss1)"
      if p: "prefix (m_techniques (evaluator w1)) (m_techniques (evaluator w'))"
        and s: "styleStack w' = []" for w' v'
    proof -
      from g2 p have p1: "prefix (m_techniques (evaluator wc)) (m_techniques (evaluator w'))"
        by (auto simp: grows_def)
      let ?w' = "w'\<lparr>result := result w' @ new\<rparr>"
      from p s have "prefix (m_techniques (evaluator w1)) (m_techniques (evaluator ?w'))"
        "styleStack ?w' = []" by simp_all
      from again [OF p1] again2 [OF this, of v'] False s show ?thesis by (simp add: ss1)
    qed
    moreover have "indexeds (length (m_techniques (evaluator w1))) ss1"
      using ix2 indexed_mono(1) [OF ix grows_length [OF g2]] by (simp add: ss1)
    ultimately show ?thesis using grows_trans [OF g g2] by blast
  qed
qed

text \<open>
  Claim C2. For an evaluator whose stored indices are positions of \<^verbatim>\<open>m_techniques\<close> (as after
  construction from a theme, and after every call): when \<^verbatim>\<open>getMatchingTechniques\<close> returns for
  an environment, a second call with the same environment returns the same references in
  the same order, all of them defined, and leaves the evaluator, with its heap of Technique
  objects, as the first call left it: no Technique is assembled again.
\<close>

theorem cached_techniques:
  assumes "indexeds (length (m_techniques ev)) (styleSet ev)"
    and "getMatchingTechniques parse ev env = Inr (res, ev1)"
  shows "getMatchingTechniques parse ev1 env = Inr (res, ev1)
       \<and> None \<notin> set res
       \<and> indexeds (length (m_techniques ev1)) (styleSet ev1)"
proof -
  let ?w = "\<lparr>evaluator = ev, styleStack = [], result = []\<rparr>"
  from assms(2) obtain w1 ss1 where
    ml: "matchingLoop parse env (validate' ev) ?w (styleSet ev) = Inr (w1, ss1)"
    and res: "res = result w1" and ev1: "ev1 = (evaluator w1)\<lparr>styleSet := ss1\<rparr>"
    by (auto simp: getMatchingTechniques_def split: sum.splits)
  from matchingLoop_again [OF ml] assms(1) obtain new where
    g: "grows ?w w1 new" and ix: "indexeds (length (m_techniques (evaluator w1))) ss1"
    and again: "\<And>w' v'. prefix (m_techniques (evaluator w1)) (m_techniques (evaluator w'))
            \<Longrightarrow> styleStack w' = [] \<Longrightarrow>
          matchingLoop parse env v' w' ss1 = Inr (w'\<lparr>result := result w' @ new\<rparr>, ss1)"
    by auto
  from g res have new: "res = new" "None \<notin> set new" by (simp_all add: grows_def)
  let ?w' = "\<lparr>evaluator = ev1, styleStack = [], result = []\<rparr>"
  have "matchingLoop parse env (validate' ev1) ?w' ss1
      = Inr (?w'\<lparr>result := result ?w' @ new\<rparr>, ss1)"
    by (rule again) (simp_all add: ev1)
  then have "getMatchingTechniques parse ev1 env = Inr (res, ev1)"
    by (simp add: getMatchingTechniques_def ev1 new)
  with new ix show ?thesis by (simp add: ev1)
qed


lemma biasGroupOrder_fields:
  assumes "biasGroupOrder c groups style = (c1, groups1, style1)"
  shows "technique style1 = technique style" "attr style1 = attr style"
    "renderOrderBiasGroup style1 = renderOrderBiasGroup style"
    "renderOrderBiasRange style1 = renderOrderBiasRange style"
  using assms
  by (auto simp: biasGroupOrder_def Let_def split: option.splits if_splits prod.splits)











text \<open>An order recorded for a group stays; a member that declares a range has its group's order.\<close>

definition stable :: "(string \<times> real) list \<Rightarrow> (string \<times> real) list \<Rightarrow> bool" where
  "stable groups groups1 \<longleftrightarrow> (\<forall>g v. map_of groups g = Some v \<longrightarrow> map_of groups1 g = Some v)"


lemma stable_refl [simp]: "stable g g"
  by (simp add: stable_def)








lemma computeDefaultRenderOrder_indexed:
  fixes s :: "'env Style" and ss :: "'env Style list"
  shows "computeDefaultRenderOrder st s = (st1, s1) \<Longrightarrow> indexed n s \<Longrightarrow> indexed n s1"
    and "computeDefaultRenderOrders st ss = (st2, ss1) \<Longrightarrow> indexeds n ss \<Longrightarrow> indexeds n ss1"
proof (induction st s and st ss arbitrary: st1 s1 and st2 ss1
    rule: computeDefaultRenderOrder_computeDefaultRenderOrders.induct)
  case (1 st style sub)
  obtain counter groups style1 where b: "biasGroupOrder (fst st) (snd st) style = (counter, groups, style1)"
    by (cases "biasGroupOrder (fst st) (snd st) style") auto
  then have p1: "p_index style1 = p_index style"
    by (auto simp: biasGroupOrder_def Let_def split: option.splits if_splits prod.splits)
  show ?case
  proof (cases sub)
    case None
    obtain c1 style2 where l: "leafRenderOrder counter style1 = (c1, style2)"
      by (cases "leafRenderOrder counter style1") auto
    then have "p_index style2 = p_index style1"
      by (auto simp: leafRenderOrder_def split: option.splits if_splits)
    with "1.prems" b None l p1 show ?thesis by auto
  next
    case (Some children)
    obtain st' children1 where c: "computeDefaultRenderOrders (counter, groups) children = (st', children1)"
      by (cases "computeDefaultRenderOrders (counter, groups) children") auto
    from "1.prems" Some have "indexeds n children" by simp
    from "1.IH" [OF b [symmetric] refl Some c this] "1.prems" b Some c p1 show ?thesis by auto
  qed
next
  case (2 st)
  then show ?case by simp
next
  case (3 st currStyle rest)
  obtain sta c1 where a: "computeDefaultRenderOrder st currStyle = (sta, c1)"
    by (cases "computeDefaultRenderOrder st currStyle") auto
  obtain stb rest1 where b: "computeDefaultRenderOrders sta rest = (stb, rest1)"
    by (cases "computeDefaultRenderOrders sta rest") auto
  from "3.prems" a b "3.IH"(1) [OF a] "3.IH"(2) [OF a [symmetric] b] show ?case by auto
qed

lemma newStyleSetEvaluator_indexed:
  assumes "indexeds 0 styleSet0"
  shows "indexeds (length (m_techniques (newStyleSetEvaluator styleSet0 validate0)))
           (styleSet (newStyleSetEvaluator styleSet0 validate0))"
proof -
  obtain counter groups styleSet1 where
    c: "computeDefaultRenderOrders (0, []) styleSet0 = ((counter, groups), styleSet1)"
    by (cases "computeDefaultRenderOrders (0, []) styleSet0") auto
  from computeDefaultRenderOrder_indexed(2) [OF c assms] c show ?thesis
    by (simp add: newStyleSetEvaluator_def)
qed

text \<open>Example styles: a style with no member set, and a leaf with a technique and an empty \<^verbatim>\<open>attr\<close>.\<close>

definition emptyStyle :: "string list StyleFields" where
  "emptyStyle =
     \<lparr>when' = None, p_whenExpr = None, renderOrder = None, renderOrderBiasGroup = None,
      renderOrderBiasRange = None, renderOrderBiasProperty = None, labelProperty = None,
      transient = None, technique = None, attr = None, final = None, p_index = None\<rparr>"

definition leafStyle :: "string \<Rightarrow> string list Style" where
  "leafStyle name = Style (emptyStyle\<lparr>technique := Some name, attr := Some []\<rparr>) None"

definition memberStyle :: "string \<Rightarrow> string \<Rightarrow> (real \<times> real) option \<Rightarrow> string list Style" where
  "memberStyle name g biasRange =
     Style (emptyStyle\<lparr>technique := Some name, attr := Some [],
              renderOrderBiasGroup := Some g, renderOrderBiasRange := biasRange\<rparr>) None"

text \<open>A parser for the examples: a condition is a name, true when the environment has it.\<close>

definition hasName :: "string \<Rightarrow> string list Expr option" where
  "hasName w = Some (\<lambda>env. w \<in> set env)"



text \<open>
  Two further behaviours of the constructor: a group whose recorded order is 0 is not passed
  on to its later members (the recorded order is tested for truth), and a leaf without an
  \<^verbatim>\<open>attr\<close> object gets no automatic render order.
\<close>

lemma bias_group_order_zero:
  "map (\<lambda>s. renderOrder (members s)) (styleSet (newStyleSetEvaluator
      [memberStyle ''fill'' ''g'' (Some (0, 1)), memberStyle ''fill'' ''g'' (Some (0, 1))]
      False)) = [Some 0, None]"
  by (simp add: newStyleSetEvaluator_def memberStyle_def emptyStyle_def
      biasGroupOrder_def leafRenderOrder_def Let_def)

lemma attr_less_leaf:
  "autoOrderss (styleSet (newStyleSetEvaluator
      [Style (emptyStyle\<lparr>technique := Some ''line''\<rparr>) None, leafStyle ''fill''] False))
     = [Some 0]
   \<and> attr (members (styleSet (newStyleSetEvaluator
      [Style (emptyStyle\<lparr>technique := Some ''line''\<rparr>) None, leafStyle ''fill''] False) ! 0))
     = None"
  by (simp add: newStyleSetEvaluator_def leafStyle_def emptyStyle_def
      biasGroupOrder_def leafRenderOrder_def Let_def automatic_def renderOrderAuto_def)

theorem cached_techniques_witness:
  "\<exists>res ev1.
     getMatchingTechniques hasName (newStyleSetEvaluator
         [Style (emptyStyle\<lparr>when' := Some ''road'', renderOrder := Some 7\<rparr>)
            (Some [leafStyle ''line'', leafStyle ''text'']),
          Style (emptyStyle\<lparr>when' := Some ''water''\<rparr>) (Some [leafStyle ''fill''])] False)
       [''road''] = Inr (res, ev1)
     \<and> res = [Some 0, Some 1]
     \<and> getMatchingTechniques hasName ev1 [''road''] = Inr (res, ev1)"
proof -
  let ?ss = "[Style (emptyStyle\<lparr>when' := Some ''road'', renderOrder := Some 7\<rparr>)
            (Some [leafStyle ''line'', leafStyle ''text'']),
          Style (emptyStyle\<lparr>when' := Some ''water''\<rparr>) (Some [leafStyle ''fill''])]"
  let ?ev = "newStyleSetEvaluator ?ss False"
  have ix: "indexeds (length (m_techniques ?ev)) (styleSet ?ev)"
    by code_simp
  have r: "map_sum id fst (getMatchingTechniques hasName ?ev [''road'']) = Inr [Some 0, Some 1]"
    by code_simp
  then obtain res ev1 where g: "getMatchingTechniques hasName ?ev [''road''] = Inr (res, ev1)"
    by (cases "getMatchingTechniques hasName ?ev [''road'']") auto
  with r have "res = [Some 0, Some 1]" by simp
  with g cached_techniques [OF ix g] show ?thesis by blast
qed

end
